theory Spec2Isabelle
  imports Complex_Main
begin

section \<open>The Mancala engine (engine.js)\<close>

text \<open>
  The board is the JavaScript array \<^verbatim>\<open>this.board\<close>; its slots hold integers.
  Slot indices, stone counts and player ids are JavaScript numbers that only ever take
  integer values on the paths modelled here, so they are \<open>int\<close>.  A read
  \<^verbatim>\<open>this.board[i]\<close> is \<open>slot b i\<close> and a write \<^verbatim>\<open>this.board[i] = v\<close> is
  \<open>setSlot b i v\<close>.  The model agrees with the program on boards of exactly 14 slots,
  where every index the engine computes is in range.  On a shorter array JavaScript would
  read \<^verbatim>\<open>undefined\<close>, which has no counterpart here; the statements below that depend
  on the value of a slot assume 14 slots.
\<close>

definition slot :: "int list \<Rightarrow> int \<Rightarrow> int" where
  "slot b i = b ! nat i"

definition setSlot :: "int list \<Rightarrow> int \<Rightarrow> int \<Rightarrow> int list" where
  "setSlot b i v = b[nat i := v]"

definition INITIAL_BOARD :: "int list" where
  "INITIAL_BOARD = [4, 4, 4, 4, 4, 4, 0, 4, 4, 4, 4, 4, 4, 0]"

record pit_range =
  rstart :: int
  rend :: int
  rstore :: int

text \<open>\<^verbatim>\<open>PIT_RANGE[player]\<close>: \<open>None\<close> is JavaScript's \<^verbatim>\<open>undefined\<close> for any other key.\<close>

definition PIT_RANGE :: "int \<Rightarrow> pit_range option" where
  "PIT_RANGE player =
     (if player = 0 then Some \<lparr>rstart = 0, rend = 5, rstore = 6\<rparr>
      else if player = 1 then Some \<lparr>rstart = 7, rend = 12, rstore = 13\<rparr>
      else None)"

text \<open>
  \<open>GameEnded\<close> and \<open>InvalidMove\<close> are the two \<^verbatim>\<open>throw new Error(...)\<close> of
  \<^verbatim>\<open>applyMove\<close>; \<open>TypeError\<close> is what JavaScript raises on reading a property of
  \<^verbatim>\<open>undefined\<close> (\<^verbatim>\<open>range.start\<close> for an unknown player).
\<close>

datatype error = GameEnded | InvalidMove int | TypeError

record engine =
  initialBoard :: "int list"
  initialPlayer :: "int option"
  board :: "int list"
  currentPlayer :: int
  gameOver :: bool

record scores =
  human :: int
  ai :: int

record capture_info =
  cap_pit :: int
  opposite :: int
  store :: int
  captured :: int

record sweep_info =
  humanRemaining :: int
  aiRemaining :: int
  sw_board :: "int list"
  sw_scores :: scores

record move_summary =
  ms_player :: int
  ms_pitIndex :: int
  stonesPicked :: int
  sequence :: "int list"
  lastPosition :: int
  landedInStore :: bool
  capture :: "capture_info option"
  sweep :: "sweep_info option"
  extraTurn :: bool
  ms_board :: "int list"
  ms_currentPlayer :: int
  ms_gameOver :: bool
  ms_scores :: scores

subsection \<open>Construction, reset, clone, accessors\<close>

text \<open>
  An argument that is absent (\<^verbatim>\<open>undefined\<close>) is \<open>None\<close>.  \<^verbatim>\<open>Array.from\<close> copies, so
  no two fields share an array and plain values model them.
\<close>

definition reset :: "engine \<Rightarrow> int list option \<Rightarrow> int option \<Rightarrow> engine" where
  "reset e boardArg playerArg =
     (let hasCustomBoard = (boardArg \<noteq> None);
          sourceBoard = (case boardArg of Some b \<Rightarrow> b | None \<Rightarrow> initialBoard e);
          e1 = (case boardArg of Some b \<Rightarrow> e\<lparr>initialBoard := b\<rparr> | None \<Rightarrow> e);
          nextPlayer =
            (case playerArg of
               Some p \<Rightarrow> p
             | None \<Rightarrow>
                 if hasCustomBoard then 0
                 else (case initialPlayer e1 of Some p \<Rightarrow> p | None \<Rightarrow> 0))
      in e1\<lparr>board := sourceBoard, currentPlayer := nextPlayer,
             initialPlayer := Some nextPlayer, gameOver := False\<rparr>)"

text \<open>
  The constructor; \<^verbatim>\<open>currentPlayer = 0\<close> is the default parameter.  The fields
  \<open>board\<close>, \<open>currentPlayer\<close> and \<open>gameOver\<close> do not exist before \<open>reset\<close> assigns
  them; the values given to them here are overwritten.
\<close>

definition newEngine :: "int list option \<Rightarrow> int option \<Rightarrow> engine" where
  "newEngine boardArg playerArg =
     (let ib = (case boardArg of Some b \<Rightarrow> b | None \<Rightarrow> INITIAL_BOARD);
          cp = (case playerArg of Some p \<Rightarrow> p | None \<Rightarrow> 0)
      in reset \<lparr>initialBoard = ib, initialPlayer = Some cp, board = [],
                 currentPlayer = 0, gameOver = False\<rparr> (Some ib) (Some cp))"

definition clone :: "engine \<Rightarrow> engine" where
  "clone e = (newEngine (Some (board e)) (Some (currentPlayer e)))\<lparr>gameOver := gameOver e\<rparr>"

definition getBoard :: "engine \<Rightarrow> int list" where
  "getBoard e = board e"

definition boardScores :: "int list \<Rightarrow> scores" where
  "boardScores b = \<lparr>human = slot b 6, ai = slot b 13\<rparr>"

definition getScores :: "engine \<Rightarrow> scores" where
  "getScores e = boardScores (board e)"

definition getValidMoves :: "engine \<Rightarrow> int \<Rightarrow> error + int list" where
  "getValidMoves e player =
     (if gameOver e then Inr []
      else (case PIT_RANGE player of
              None \<Rightarrow> Inl TypeError
            | Some rg \<Rightarrow>
                Inr (filter (\<lambda>pit. slot (board e) pit > 0) [rstart rg..rend rg])))"

definition isValidMove :: "engine \<Rightarrow> int \<Rightarrow> int \<Rightarrow> bool" where
  "isValidMove e pitIndex player =
     (if gameOver e then False
      else (case PIT_RANGE player of
              None \<Rightarrow> False
            | Some rg \<Rightarrow>
                pitIndex \<ge> rstart rg \<and> pitIndex \<le> rend rg
                \<and> slot (board e) pitIndex > 0))"

subsection \<open>Rule helpers\<close>

definition shouldSkipPosition :: "int \<Rightarrow> int \<Rightarrow> bool" where
  "shouldSkipPosition position player =
     ((player = 0 \<and> position = 13) \<or> (player = 1 \<and> position = 6))"

definition isOwnStore :: "int \<Rightarrow> int \<Rightarrow> error + bool" where
  "isOwnStore position player =
     (case PIT_RANGE player of
        None \<Rightarrow> Inl TypeError
      | Some rg \<Rightarrow> Inr (position = rstore rg))"

definition isOwnSide :: "int \<Rightarrow> int \<Rightarrow> error + bool" where
  "isOwnSide position player =
     (case PIT_RANGE player of
        None \<Rightarrow> Inl TypeError
      | Some rg \<Rightarrow> Inr (position \<ge> rstart rg \<and> position \<le> rend rg))"

text \<open>\<^verbatim>\<open>tryCapture\<close> returns the capture record (or \<^verbatim>\<open>null\<close>) and the board it leaves.\<close>

definition tryCapture :: "int list \<Rightarrow> int \<Rightarrow> int \<Rightarrow> error + (capture_info option \<times> int list)" where
  "tryCapture b position player =
     (case isOwnSide position player of
        Inl err \<Rightarrow> Inl err
      | Inr own \<Rightarrow>
          if \<not> own then Inr (None, b)
          else if slot b position \<noteq> 1 then Inr (None, b)
          else
            (let opp = 12 - position;
                 oppositeStones = slot b opp
             in if oppositeStones = 0 then Inr (None, b)
                else
                  (case PIT_RANGE player of
                     None \<Rightarrow> Inl TypeError
                   | Some rg \<Rightarrow>
                       (let st = rstore rg;
                            cap = oppositeStones + 1;
                            b1 = setSlot b st (slot b st + cap);
                            b2 = setSlot b1 position 0;
                            b3 = setSlot b2 opp 0
                        in Inr (Some \<lparr>cap_pit = position, opposite = opp,
                                      store = st, captured = cap\<rparr>, b3)))))"

definition isSideEmpty :: "int list \<Rightarrow> int \<Rightarrow> error + bool" where
  "isSideEmpty b player =
     (case PIT_RANGE player of
        None \<Rightarrow> Inl TypeError
      | Some rg \<Rightarrow> Inr (list_all (\<lambda>pit. slot b pit = 0) [rstart rg..rend rg]))"

definition sumRange :: "int list \<Rightarrow> int \<Rightarrow> int \<Rightarrow> int" where
  "sumRange b first final = sum_list (map (slot b) [first..final])"

text \<open>The loop \<^verbatim>\<open>for (pit = first; pit <= final; pit++) this.board[pit] = 0\<close>.\<close>

definition zeroRange :: "int list \<Rightarrow> int \<Rightarrow> int \<Rightarrow> int list" where
  "zeroRange b first final = fold (\<lambda>pit acc. setSlot acc pit 0) [first..final] b"

definition collectRemainingStones :: "int list \<Rightarrow> sweep_info \<times> int list" where
  "collectRemainingStones b =
     (let hr = sumRange b 0 5;
          ar = sumRange b 7 12;
          b1 = (if hr > 0 then zeroRange (setSlot b 6 (slot b 6 + hr)) 0 5 else b);
          b2 = (if ar > 0 then zeroRange (setSlot b1 13 (slot b1 13 + ar)) 7 12 else b1)
      in (\<lparr>humanRemaining = hr, aiRemaining = ar,
           sw_board = b2, sw_scores = boardScores b2\<rparr>, b2))"

subsection \<open>Sowing\<close>

text \<open>
  The \<^verbatim>\<open>while (stones > 0)\<close> loop of \<^verbatim>\<open>applyMove\<close>, on the loop variables
  \<open>stones\<close>, \<open>position\<close>, the board and the sequence log.  The position is never
  negative, so JavaScript's \<^verbatim>\<open>%\<close> is \<open>mod\<close>.
\<close>

function sow :: "int \<Rightarrow> int list \<Rightarrow> int \<Rightarrow> int \<Rightarrow> int list \<Rightarrow> int list \<times> int \<times> int list" where
  "sow player b stones position sq =
     (if stones > 0 then
        (if shouldSkipPosition ((position + 1) mod 14) player
         then sow player b stones ((position + 1) mod 14) sq
         else sow player
                (setSlot b ((position + 1) mod 14) (slot b ((position + 1) mod 14) + 1))
                (stones - 1) ((position + 1) mod 14)
                (sq @ [(position + 1) mod 14]))
      else (b, position, sq))"
  by pat_completeness auto
termination
  by (relation "measure (\<lambda>(player, b, stones, position, sq).
         2 * nat stones + (if shouldSkipPosition ((position + 1) mod 14) player then 1 else 0))")
     (auto simp: shouldSkipPosition_def)

declare sow.simps [simp del]

subsection \<open>applyMove\<close>

text \<open>
  \<open>raising r e k\<close> runs the helper result \<open>r\<close>: an exception leaves \<^verbatim>\<open>applyMove\<close>
  with the engine as it stands (\<open>e\<close>), a value continues with \<open>k\<close>.
\<close>

definition raising :: "error + 'a \<Rightarrow> engine \<Rightarrow> ('a \<Rightarrow> (error + 'b) \<times> engine) \<Rightarrow> (error + 'b) \<times> engine" where
  "raising r e k = (case r of Inl err \<Rightarrow> (Inl err, e) | Inr v \<Rightarrow> k v)"

text \<open>The board after the sowing loop, with the last position and the sequence log.\<close>

definition sowPhase :: "engine \<Rightarrow> int \<Rightarrow> int list \<times> int \<times> int list" where
  "sowPhase e pitIndex =
     sow (currentPlayer e) (setSlot (board e) pitIndex 0) (slot (board e) pitIndex) pitIndex []"

text \<open>
  The capture step of \<^verbatim>\<open>applyMove\<close>: \<^verbatim>\<open>tryCapture\<close> runs only when the last stone
  missed the mover's store.  The result is the capture record and the board left.
\<close>

definition captureStep :: "int list \<Rightarrow> int \<Rightarrow> int \<Rightarrow> bool \<Rightarrow> error + (capture_info option \<times> int list)" where
  "captureStep b1 position player landed =
     (if \<not> landed then tryCapture b1 position player else Inr (None, b1))"

definition applyMove :: "engine \<Rightarrow> int \<Rightarrow> (error + move_summary) \<times> engine" where
  "applyMove e pitIndex =
     (if gameOver e then (Inl GameEnded, e)
      else if \<not> isValidMove e pitIndex (currentPlayer e) then (Inl (InvalidMove pitIndex), e)
      else
        (let player = currentPlayer e;
             picked = slot (board e) pitIndex;
             (b1, position, sq) = sowPhase e pitIndex;
             e1 = e\<lparr>board := b1\<rparr>
         in raising (isOwnStore position player) e1 (\<lambda>landed.
            raising (captureStep b1 position player landed) e1
              (\<lambda>(cap, b2).
            let e2 = e1\<lparr>board := b2\<rparr> in
            raising (isSideEmpty b2 0) e2 (\<lambda>empty0.
            raising (if empty0 then Inr True else isSideEmpty b2 1) e2 (\<lambda>anyEmpty.
            let (sw, e3) =
                  (if anyEmpty
                   then (let (info, b3) = collectRemainingStones b2
                         in (Some info, e2\<lparr>board := b3, gameOver := True\<rparr>))
                   else (None, e2));
                e4 = (if \<not> landed \<and> \<not> gameOver e3
                      then e3\<lparr>currentPlayer := 1 - player\<rparr> else e3)
            in (Inr \<lparr>ms_player = player, ms_pitIndex = pitIndex, stonesPicked = picked,
                     sequence = sq, lastPosition = position, landedInStore = landed,
                     capture = cap, sweep = sw, extraTurn = landed,
                     ms_board = getBoard e4, ms_currentPlayer = currentPlayer e4,
                     ms_gameOver = gameOver e4, ms_scores = getScores e4\<rparr>, e4)))))))"

definition simulateMove :: "engine \<Rightarrow> int \<Rightarrow> error + (engine \<times> move_summary)" where
  "simulateMove e pitIndex =
     (case applyMove (clone e) pitIndex of
        (Inl err, _) \<Rightarrow> Inl err
      | (Inr result, c) \<Rightarrow> Inr (c, result))"

section \<open>The move evaluator (front-end script)\<close>

definition HUMAN_PLAYER :: int where
  "HUMAN_PLAYER = 0"

definition AI_PLAYER :: int where
  "AI_PLAYER = 1"

text \<open>
  Scores are JavaScript numbers, that is IEEE 754 doubles.  Every score is an integer
  (which a double holds exactly) up to the last step \<^verbatim>\<open>score -= worstOpponent * 0.6\<close>,
  whose product and difference are rounded.  The loops start from \<^verbatim>\<open>-Infinity\<close>, so a
  number is a \<open>jsnum\<close>: \<open>int jsnum\<close> while it is an integer, \<open>real jsnum\<close> for the
  final score, whose \<open>Fin x\<close> carries the exact value \<open>x\<close> of the double.
  \<open>jsgt a b\<close> is JavaScript's \<^verbatim>\<open>a > b\<close>; doubles compare as their values do.
\<close>

datatype 'a jsnum = NegInf | Fin 'a | PosInf

fun jsgt :: "('a::linorder) jsnum \<Rightarrow> 'a jsnum \<Rightarrow> bool" where
  "jsgt (Fin x) (Fin y) = (x > y)"
| "jsgt NegInf _ = False"
| "jsgt _ PosInf = False"
| "jsgt (Fin x) NegInf = True"
| "jsgt PosInf (Fin y) = True"
| "jsgt PosInf NegInf = True"

subsection \<open>Double arithmetic\<close>

text \<open>
  A finite double is \<open>m * 2^e\<close> for integers \<open>m\<close> and \<open>e\<close> with \<open>\<bar>m\<bar> \<le> 2^53\<close>; the
  pair \<open>(m, e)\<close> stands for it and \<open>doubleValue\<close> is its value.  JavaScript's \<^verbatim>\<open>*\<close> and
  \<^verbatim>\<open>-\<close> return the exact result rounded to 53 significant bits, to nearest, ties to
  the even significand: \<open>roundDouble\<close>.  The exponent is not bounded here: overflow and
  subnormal numbers lie beyond 2^1023 and below 2^-1022, far from any score.
\<close>

function bitLength :: "int \<Rightarrow> int" where
  "bitLength a = (if a \<le> 0 then 0 else 1 + bitLength (a div 2))"
  by pat_completeness auto
termination
  by (relation "measure nat") auto

declare bitLength.simps [simp del]

definition roundDouble :: "int \<times> int \<Rightarrow> int \<times> int" where
  "roundDouble x =
     (case x of (m, e) \<Rightarrow>
        (let a = \<bar>m\<bar>; n = bitLength a
         in if n \<le> 53 then (m, e)
            else
              (let sh = nat (n - 53);
                   q = a div 2 ^ sh;
                   r = a mod 2 ^ sh;
                   half = 2 ^ (sh - 1);
                   q' = (if r > half \<or> (r = half \<and> odd q) then q + 1 else q)
               in (sgn m * q', e + int sh))))"

definition doubleValue :: "int \<times> int \<Rightarrow> real" where
  "doubleValue x =
     (case x of (m, e) \<Rightarrow>
        if 0 \<le> e then real_of_int m * 2 ^ nat e else real_of_int m / 2 ^ nat (- e))"

text \<open>The literal \<^verbatim>\<open>0.6\<close>: the double nearest to 6/10.\<close>

definition POINT_SIX :: "int \<times> int" where
  "POINT_SIX = (5404319552844595, - 53)"

text \<open>\<^verbatim>\<open>w * d\<close> and \<^verbatim>\<open>s - d\<close> for integers \<open>w\<close>, \<open>s\<close> and a double \<open>d\<close>.\<close>

definition timesDouble :: "int \<Rightarrow> int \<times> int \<Rightarrow> int \<times> int" where
  "timesDouble w d = (case d of (m, e) \<Rightarrow> roundDouble (w * m, e))"

definition minusDouble :: "int \<Rightarrow> int \<times> int \<Rightarrow> int \<times> int" where
  "minusDouble s d =
     (case d of (m, e) \<Rightarrow>
        roundDouble (if e \<le> 0 then (s * 2 ^ nat (- e) - m, e) else (s - m * 2 ^ nat e, 0)))"

text \<open>\<^verbatim>\<open>scores[playerKey]\<close> and \<^verbatim>\<open>scores[opponentKey]\<close>.\<close>

definition playerScore :: "scores \<Rightarrow> int \<Rightarrow> int" where
  "playerScore sc player = (if player = HUMAN_PLAYER then human sc else ai sc)"

definition opponentScore :: "scores \<Rightarrow> int \<Rightarrow> int" where
  "opponentScore sc player = (if player = HUMAN_PLAYER then ai sc else human sc)"

definition opponentOf :: "int \<Rightarrow> int" where
  "opponentOf player = (if player = HUMAN_PLAYER then AI_PLAYER else HUMAN_PLAYER)"

text \<open>The score \<^verbatim>\<open>oppScore\<close> of one opponent reply, from the reply's move summary.\<close>

definition replyScore :: "move_summary \<Rightarrow> int \<Rightarrow> int" where
  "replyScore oppResult player =
     (let d = opponentScore (ms_scores oppResult) player - playerScore (ms_scores oppResult) player;
          s0 = d * 6;
          s1 = (if extraTurn oppResult then s0 + 35 else s0);
          s2 = (case capture oppResult of Some c \<Rightarrow> s1 + (15 + captured c * 2) | None \<Rightarrow> s1)
      in if ms_gameOver oppResult then s2 + d * 15 else s2)"

text \<open>
  The loop over \<^verbatim>\<open>opponentMoves\<close>; \<open>sim\<close> is how one reply is simulated, which is where
  the two copies of the script differ.
\<close>

fun replyLoop :: "(int \<Rightarrow> error + (engine \<times> move_summary)) \<Rightarrow> int \<Rightarrow> int list \<Rightarrow> int jsnum
                   \<Rightarrow> error + int jsnum" where
  "replyLoop sim player [] worstOpponent = Inr worstOpponent"
| "replyLoop sim player (oppPit # rest) worstOpponent =
     (case sim oppPit of
        Inl err \<Rightarrow> Inl err
      | Inr (_, oppResult) \<Rightarrow>
          (let oppScore = Fin (replyScore oppResult player)
           in replyLoop sim player rest
                (if jsgt oppScore worstOpponent then oppScore else worstOpponent)))"

text \<open>
  \<^verbatim>\<open>score -= worstOpponent * 0.6\<close>, for the integer \<open>score\<close>: the product is rounded,
  then the difference.
\<close>

definition minusScaled :: "int \<Rightarrow> int jsnum \<Rightarrow> real jsnum" where
  "minusScaled score worstOpponent =
     (case worstOpponent of
        NegInf \<Rightarrow> PosInf
      | Fin w \<Rightarrow> Fin (doubleValue (minusDouble score (timesDouble w POINT_SIX)))
      | PosInf \<Rightarrow> NegInf)"

text \<open>The score before the opponent's replies are looked at.\<close>

definition baseScore :: "move_summary \<Rightarrow> int \<Rightarrow> int" where
  "baseScore result player =
     (let s0 = (playerScore (ms_scores result) player - opponentScore (ms_scores result) player) * 6;
          s1 = (if extraTurn result then s0 + 40 else s0)
      in (case capture result of Some c \<Rightarrow> s1 + (15 + captured c * 3) | None \<Rightarrow> s1))"

definition finalMargin :: "move_summary \<Rightarrow> int \<Rightarrow> int" where
  "finalMargin result player =
     (playerScore (ms_scores result) player - opponentScore (ms_scores result) player) * 20"

text \<open>
  \<^verbatim>\<open>evaluateMove\<close> as in the copy of the script that returns early on an extra turn and
  simulates each reply on a clone whose \<^verbatim>\<open>currentPlayer\<close> is set to the opponent.
\<close>

definition evaluateMove :: "engine \<Rightarrow> int \<Rightarrow> int \<Rightarrow> error + real jsnum" where
  "evaluateMove e player pitIndex =
     (case simulateMove e pitIndex of
        Inl err \<Rightarrow> Inl err
      | Inr (simulatedEngine, result) \<Rightarrow>
          (let score = baseScore result player
           in if ms_gameOver result then Inr (Fin (real_of_int (score + finalMargin result player)))
              else if extraTurn result then Inr (Fin (real_of_int score))
              else
                (case getValidMoves simulatedEngine (opponentOf player) of
                   Inl err \<Rightarrow> Inl err
                 | Inr opponentMoves \<Rightarrow>
                     if length opponentMoves = 0 then Inr (Fin (real_of_int (score + 10)))
                     else
                       (case replyLoop
                               (\<lambda>oppPit. simulateMove
                                  ((clone simulatedEngine)\<lparr>currentPlayer := opponentOf player\<rparr>) oppPit)
                               player opponentMoves NegInf of
                          Inl err \<Rightarrow> Inl err
                        | Inr worstOpponent \<Rightarrow>
                            Inr (minusScaled score worstOpponent)))))"

text \<open>
  \<^verbatim>\<open>evaluateMove\<close> as in the other copy of the script: no early return on an extra turn,
  and each reply is simulated directly on the simulated engine.
\<close>

definition evaluateMoveDirect :: "engine \<Rightarrow> int \<Rightarrow> int \<Rightarrow> error + real jsnum" where
  "evaluateMoveDirect e player pitIndex =
     (case simulateMove e pitIndex of
        Inl err \<Rightarrow> Inl err
      | Inr (simulatedEngine, result) \<Rightarrow>
          (let score = baseScore result player
           in if ms_gameOver result then Inr (Fin (real_of_int (score + finalMargin result player)))
              else
                (case getValidMoves simulatedEngine (opponentOf player) of
                   Inl err \<Rightarrow> Inl err
                 | Inr opponentMoves \<Rightarrow>
                     if length opponentMoves = 0 then Inr (Fin (real_of_int (score + 10)))
                     else
                       (case replyLoop (\<lambda>oppPit. simulateMove simulatedEngine oppPit)
                               player opponentMoves NegInf of
                          Inl err \<Rightarrow> Inl err
                        | Inr worstOpponent \<Rightarrow>
                            Inr (minusScaled score worstOpponent)))))"

text \<open>
  The selection loop shared by \<^verbatim>\<open>chooseBestAIMove\<close> and \<^verbatim>\<open>showHint\<close>:
  \<open>ev\<close> is the evaluator, \<open>bestMove\<close> and \<open>bestScore\<close> the loop variables.
\<close>

fun bestLoop :: "(int \<Rightarrow> error + real jsnum) \<Rightarrow> int list \<Rightarrow> int \<Rightarrow> real jsnum \<Rightarrow> error + int" where
  "bestLoop ev [] bestMove bestScore = Inr bestMove"
| "bestLoop ev (pit # rest) bestMove bestScore =
     (case ev pit of
        Inl err \<Rightarrow> Inl err
      | Inr score \<Rightarrow>
          if jsgt score bestScore then bestLoop ev rest pit score
          else bestLoop ev rest bestMove bestScore)"

text \<open>
  \<open>chooseBest ev e player\<close> is the body of \<^verbatim>\<open>chooseBestAIMove\<close> with the player it is
  written for (\<^verbatim>\<open>AI_PLAYER\<close>) as a parameter; \<^verbatim>\<open>showHint\<close> runs the same loop for
  \<^verbatim>\<open>HUMAN_PLAYER\<close>.  \<open>None\<close> is \<^verbatim>\<open>null\<close>.
\<close>

definition chooseBest :: "(engine \<Rightarrow> int \<Rightarrow> int \<Rightarrow> error + real jsnum) \<Rightarrow> engine \<Rightarrow> int \<Rightarrow> error + int option" where
  "chooseBest ev e player =
     (case getValidMoves e player of
        Inl err \<Rightarrow> Inl err
      | Inr candidateMoves \<Rightarrow>
          if length candidateMoves = 0 then Inr None
          else (case bestLoop (ev e player) candidateMoves (hd candidateMoves) NegInf of
                  Inl err \<Rightarrow> Inl err
                | Inr bestMove \<Rightarrow> Inr (Some bestMove)))"

definition chooseBestAIMove :: "engine \<Rightarrow> error + int option" where
  "chooseBestAIMove e = chooseBest evaluateMove e AI_PLAYER"

section \<open>Well-formed states and runs\<close>

text \<open>A well-formed engine state: 14 non-negative slots and a current player 0 or 1.\<close>

definition wellFormed :: "engine \<Rightarrow> bool" where
  "wellFormed e =
     (length (board e) = 14 \<and> list_all (\<lambda>x. 0 \<le> x) (board e)
      \<and> (currentPlayer e = 0 \<or> currentPlayer e = 1))"

text \<open>A sequence of \<^verbatim>\<open>applyMove\<close> calls, all of which must succeed.\<close>

fun playMoves :: "engine \<Rightarrow> int list \<Rightarrow> error + engine" where
  "playMoves e [] = Inr e"
| "playMoves e (p # ps) =
     (case applyMove e p of
        (Inl err, _) \<Rightarrow> Inl err
      | (Inr _, e') \<Rightarrow> playMoves e' ps)"

text \<open>Calls made on an engine after its construction, and the board last handed to it.\<close>

datatype call = Reset "int list option" "int option" | Move int

fun run :: "engine \<Rightarrow> call list \<Rightarrow> engine" where
  "run e [] = e"
| "run e (Reset b p # cs) = run (reset e b p) cs"
| "run e (Move pit # cs) = run (snd (applyMove e pit)) cs"

fun lastSupplied :: "int list \<Rightarrow> call list \<Rightarrow> int list" where
  "lastSupplied b [] = b"
| "lastSupplied b (Reset (Some b') p # cs) = lastSupplied b' cs"
| "lastSupplied b (Reset None p # cs) = lastSupplied b cs"
| "lastSupplied b (Move pit # cs) = lastSupplied b cs"

text \<open>The test \<^verbatim>\<open>this.isSideEmpty(0) || this.isSideEmpty(1)\<close> of \<^verbatim>\<open>applyMove\<close>.\<close>

definition anySideEmpty :: "int list \<Rightarrow> bool" where
  "anySideEmpty b = (isSideEmpty b 0 = Inr True \<or> isSideEmpty b 1 = Inr True)"

text \<open>
  The board of the sowing loop at the moment one stone is left in hand, that is, just
  before the last stone is dropped: the loop run with one stone fewer.
\<close>

definition beforeLastDrop :: "engine \<Rightarrow> int \<Rightarrow> int list" where
  "beforeLastDrop e pitIndex =
     fst (sow (currentPlayer e) (setSlot (board e) pitIndex 0) (slot (board e) pitIndex - 1) pitIndex [])"

section \<open>Properties of the sowing loop\<close>

lemma sum_list_update_int:
  "k < length xs \<Longrightarrow> sum_list (xs[k := x]) = sum_list xs + x - (xs ! k :: int)"
proof (induction xs arbitrary: k)
  case Nil
  then show ?case by simp
next
  case (Cons a xs)
  then show ?case by (cases k) simp_all
qed

lemma sow_seq_set:
  "set (snd (snd (sow p b n pos sq))) \<subseteq> set sq \<union> {q. 0 \<le> q \<and> q < 14 \<and> \<not> shouldSkipPosition q p}"
proof (induction p b n pos sq rule: sow.induct)
  case (1 player b stones position sq)
  have r: "0 \<le> (position + 1) mod 14" "(position + 1) mod 14 < 14"
    by simp_all
  show ?case
  proof (cases "stones > 0")
    case False
    then show ?thesis by (subst sow.simps) simp
  next
    case True
    show ?thesis
    proof (cases "shouldSkipPosition ((position + 1) mod 14) player")
      case True
      with \<open>stones > 0\<close> "1.IH"(1) show ?thesis
        by (subst sow.simps) simp
    next
      case False
      have eq: "sow player b stones position sq = sow player
                (setSlot b ((position + 1) mod 14) (slot b ((position + 1) mod 14) + 1))
                (stones - 1) ((position + 1) mod 14)
                (sq @ [(position + 1) mod 14])"
        using False \<open>stones > 0\<close> by (subst sow.simps) simp
      have "set (sq @ [(position + 1) mod 14]) \<subseteq> set sq \<union> {q. 0 \<le> q \<and> q < 14 \<and> \<not> shouldSkipPosition q player}"
        using False r by simp
      with "1.IH"(2)[OF \<open>stones > 0\<close> False] show ?thesis
        unfolding eq by blast
    qed
  qed
qed

lemma list_all_setSlot:
  "list_all P b \<Longrightarrow> (nat i < length b \<Longrightarrow> P v) \<Longrightarrow> list_all P (setSlot b i v)"
proof (cases "nat i < length b")
  case True
  assume "list_all P b" "nat i < length b \<Longrightarrow> P v"
  with True show ?thesis
    unfolding setSlot_def list_all_iff
    using set_update_subset_insert[of b "nat i" v] by auto
next
  case False
  assume "list_all P b"
  with False show ?thesis by (simp add: setSlot_def list_update_beyond)
qed

lemma list_all_slot: "list_all P b \<Longrightarrow> nat i < length b \<Longrightarrow> P (slot b i)"
  by (simp add: slot_def list_all_length)

lemma sow_nonneg:
  "list_all (\<lambda>x. 0 \<le> x) b \<Longrightarrow> list_all (\<lambda>x. 0 \<le> x) (fst (sow p b n pos sq))"
proof (induction p b n pos sq rule: sow.induct)
  case (1 player b stones position sq)
  have "list_all (\<lambda>x. 0 \<le> x) (setSlot b ((position + 1) mod 14) (slot b ((position + 1) mod 14) + 1))"
  proof (rule list_all_setSlot[OF "1.prems"])
    assume "nat ((position + 1) mod 14) < length b"
    from list_all_slot[OF "1.prems" this] show "0 \<le> slot b ((position + 1) mod 14) + 1" by simp
  qed
  with 1 show ?case
    by (subst sow.simps) simp
qed

lemma sow_zero: "\<not> n > 0 \<Longrightarrow> sow p b n pos sq = (b, pos, sq)"
  by (subst sow.simps) simp

lemma sow_skip: "n > 0 \<Longrightarrow> shouldSkipPosition ((pos + 1) mod 14) p \<Longrightarrow>
   sow p b n pos sq = sow p b n ((pos + 1) mod 14) sq"
  by (subst sow.simps) simp

lemma sow_drop: "n > 0 \<Longrightarrow> \<not> shouldSkipPosition ((pos + 1) mod 14) p \<Longrightarrow>
   sow p b n pos sq = sow p (setSlot b ((pos + 1) mod 14) (slot b ((pos + 1) mod 14) + 1))
                (n - 1) ((pos + 1) mod 14) (sq @ [(pos + 1) mod 14])"
  by (subst sow.simps) simp

lemma sow_last:
  "n > 0 \<Longrightarrow> snd (snd (sow p b n pos sq)) \<noteq> [] \<and> last (snd (snd (sow p b n pos sq))) = fst (snd (sow p b n pos sq))"
proof (induction p b n pos sq rule: sow.induct)
  case (1 player b stones position sq)
  show ?case
  proof (cases "shouldSkipPosition ((position + 1) mod 14) player")
    case True
    with 1 show ?thesis by (simp add: sow_skip)
  next
    case False
    show ?thesis
    proof (cases "stones - 1 > 0")
      case True
      with False 1 show ?thesis by (simp add: sow_drop)
    next
      case False
      with \<open>\<not> shouldSkipPosition ((position + 1) mod 14) player\<close> "1.prems" show ?thesis
        by (simp add: sow_drop sow_zero)
    qed
  qed
qed

lemma sow_seq_length: "length (snd (snd (sow p b n pos sq))) = length sq + nat n"
proof (induction p b n pos sq rule: sow.induct)
  case (1 player b stones position sq)
  show ?case
  proof (cases "stones > 0")
    case False
    then show ?thesis by (simp add: sow_zero)
  next
    case True
    show ?thesis
    proof (cases "shouldSkipPosition ((position + 1) mod 14) player")
      case True
      with \<open>stones > 0\<close> "1.IH"(1) show ?thesis by (simp add: sow_skip)
    next
      case False
      have "Suc (nat (stones - 1)) = nat stones" using \<open>stones > 0\<close> by simp
      with False \<open>stones > 0\<close> "1.IH"(2) show ?thesis by (simp add: sow_drop)
    qed
  qed
qed

lemma sow_skipped_unchanged:
  "shouldSkipPosition q p \<Longrightarrow> slot (fst (sow p b n pos sq)) q = slot b q"
proof (induction p b n pos sq rule: sow.induct)
  case (1 player b stones position sq)
  show ?case
  proof (cases "stones > 0")
    case False
    then show ?thesis by (simp add: sow_zero)
  next
    case True
    show ?thesis
    proof (cases "shouldSkipPosition ((position + 1) mod 14) player")
      case True
      with \<open>stones > 0\<close> "1.IH"(1) "1.prems" show ?thesis by (simp add: sow_skip)
    next
      case False
      have "0 \<le> (position + 1) mod 14" by simp
      with False "1.prems" have "nat ((position + 1) mod 14) \<noteq> nat q"
        by (auto simp: shouldSkipPosition_def)
      with False \<open>stones > 0\<close> "1.IH"(2) "1.prems" show ?thesis
        by (simp add: sow_drop slot_def setSlot_def)
    qed
  qed
qed

lemma sow_length: "length (fst (sow p b n pos sq)) = length b"
proof (induction p b n pos sq rule: sow.induct)
  case (1 player b stones position sq)
  then show ?case
    by (subst sow.simps) (simp add: setSlot_def)
qed

lemma sum_list_setSlot_incr:
  "0 \<le> i \<Longrightarrow> nat i < length b \<Longrightarrow> sum_list (setSlot b i (slot b i + 1)) = sum_list b + 1"
  by (simp add: setSlot_def slot_def sum_list_update_int)

lemma sow_sum:
  "length b = 14 \<Longrightarrow> sum_list (fst (sow p b n pos sq)) = sum_list b + max 0 n"
proof (induction p b n pos sq rule: sow.induct)
  case (1 player b stones position sq)
  have r: "0 \<le> (position + 1) mod 14" "nat ((position + 1) mod 14) < length b"
    using "1.prems" by simp_all
  show ?case
  proof (cases "stones > 0")
    case False
    then show ?thesis by (simp add: sow_zero)
  next
    case True
    show ?thesis
    proof (cases "shouldSkipPosition ((position + 1) mod 14) player")
      case True
      with \<open>stones > 0\<close> "1.IH"(1) "1.prems" show ?thesis
        by (simp add: sow_skip)
    next
      case False
      have len: "length (setSlot b ((position + 1) mod 14) (slot b ((position + 1) mod 14) + 1)) = 14"
        using "1.prems" by (simp add: setSlot_def)
      from False \<open>stones > 0\<close> "1.IH"(2)[OF _ _ len] sum_list_setSlot_incr[OF r] show ?thesis
        by (simp add: sow_drop)
    qed
  qed
qed

lemma sow_split:
  "n > 0 \<Longrightarrow> sow p b n pos sq = (case sow p b (n - 1) pos sq of (b', pos', sq') \<Rightarrow> sow p b' 1 pos' sq')"
proof (induction p b n pos sq rule: sow.induct)
  case (1 player b stones position sq)
  show ?case
  proof (cases "stones - 1 > 0")
    case False
    with "1.prems" have "stones = 1" by simp
    then show ?thesis by (simp add: sow_zero)
  next
    case True
    show ?thesis
    proof (cases "shouldSkipPosition ((position + 1) mod 14) player")
      case skip: True
      from "1.IH"(1)[OF "1.prems" skip "1.prems"] skip True "1.prems" show ?thesis
        by (simp add: sow_skip)
    next
      case drop: False
      from "1.IH"(2)[OF "1.prems" drop True] drop True "1.prems" show ?thesis
        by (simp add: sow_drop)
    qed
  qed
qed

lemma sow_one:
  "sow p b 1 pos sq =
     (let q = (if shouldSkipPosition ((pos + 1) mod 14) p then ((pos + 1) mod 14 + 1) mod 14
               else (pos + 1) mod 14)
      in (setSlot b q (slot b q + 1), q, sq @ [q]))"
proof (cases "shouldSkipPosition ((pos + 1) mod 14) p")
  case True
  then have "\<not> shouldSkipPosition (((pos + 1) mod 14 + 1) mod 14) p"
    by (auto simp: shouldSkipPosition_def)
  with True show ?thesis
    by (simp add: sow_skip sow_drop sow_zero Let_def)
next
  case False
  then show ?thesis
    by (simp add: sow_drop sow_zero Let_def)
qed

section \<open>The phases of a successful move\<close>

lemma isValidMove_cases:
  "isValidMove e pitIndex player \<longleftrightarrow>
     \<not> gameOver e \<and> slot (board e) pitIndex > 0 \<and>
     ((player = 0 \<and> 0 \<le> pitIndex \<and> pitIndex \<le> 5) \<or> (player = 1 \<and> 7 \<le> pitIndex \<and> pitIndex \<le> 12))"
  by (auto simp: isValidMove_def PIT_RANGE_def)

lemma PIT_RANGE_Some:
  "PIT_RANGE player = Some rg \<longleftrightarrow>
     (player = 0 \<and> rg = \<lparr>rstart = 0, rend = 5, rstore = 6\<rparr>) \<or>
     (player = 1 \<and> rg = \<lparr>rstart = 7, rend = 12, rstore = 13\<rparr>)"
  by (auto simp: PIT_RANGE_def)

lemma tryCapture_total:
  "PIT_RANGE player = Some rg \<Longrightarrow> \<exists>cap b2. tryCapture b position player = Inr (cap, b2)"
  by (simp add: tryCapture_def isOwnSide_def Let_def)

lemma captureStep_total:
  "PIT_RANGE player = Some rg \<Longrightarrow> \<exists>cap b2. captureStep b position player landed = Inr (cap, b2)"
  using tryCapture_total[of player rg b position] by (simp add: captureStep_def)

lemma newEngine_eq:
  "newEngine boardArg playerArg =
     \<lparr>initialBoard = (case boardArg of Some b \<Rightarrow> b | None \<Rightarrow> INITIAL_BOARD),
      initialPlayer = Some (case playerArg of Some p \<Rightarrow> p | None \<Rightarrow> 0),
      board = (case boardArg of Some b \<Rightarrow> b | None \<Rightarrow> INITIAL_BOARD),
      currentPlayer = (case playerArg of Some p \<Rightarrow> p | None \<Rightarrow> 0),
      gameOver = False\<rparr>"
  by (simp add: newEngine_def reset_def Let_def)

text \<open>A valid move runs through sowing, capture step, end test and turn change without raising.\<close>

lemma applyMove_valid:
  assumes v: "isValidMove e pitIndex (currentPlayer e)"
      and s: "sowPhase e pitIndex = (b1, pos, sq)"
      and r: "PIT_RANGE (currentPlayer e) = Some rg"
      and c: "captureStep b1 pos (currentPlayer e) (pos = rstore rg) = Inr (cap, b2)"
  shows "applyMove e pitIndex =
     (let b3 = (if anySideEmpty b2 then snd (collectRemainingStones b2) else b2);
          sw = (if anySideEmpty b2 then Some (fst (collectRemainingStones b2)) else None);
          landed = (pos = rstore rg);
          cp = (if \<not> landed \<and> \<not> anySideEmpty b2 then 1 - currentPlayer e else currentPlayer e)
      in (Inr \<lparr>ms_player = currentPlayer e, ms_pitIndex = pitIndex,
               stonesPicked = slot (board e) pitIndex, sequence = sq, lastPosition = pos,
               landedInStore = landed, capture = cap, sweep = sw, extraTurn = landed,
               ms_board = b3, ms_currentPlayer = cp, ms_gameOver = anySideEmpty b2,
               ms_scores = boardScores b3\<rparr>,
          e\<lparr>board := b3, currentPlayer := cp, gameOver := anySideEmpty b2\<rparr>))"
proof -
  from v have g: "gameOver e = False" by (simp add: isValidMove_def split: if_splits)
  obtain E0 E1 where e0: "isSideEmpty b2 0 = Inr E0" and e1: "isSideEmpty b2 1 = Inr E1"
    and ae: "anySideEmpty b2 = (E0 \<or> E1)"
    by (simp add: isSideEmpty_def PIT_RANGE_def anySideEmpty_def)
  obtain info b3 where crs: "collectRemainingStones b2 = (info, b3)"
    by (cases "collectRemainingStones b2")
  show ?thesis
  proof (cases "E0 \<or> E1")
    case True
    with v g s r c e0 e1 ae crs show ?thesis
      by (auto simp add: applyMove_def raising_def isOwnStore_def Let_def
            getBoard_def getScores_def)
  next
    case False
    with v g s r c e0 e1 ae crs show ?thesis
      by (cases e) (auto simp add: applyMove_def raising_def isOwnStore_def Let_def
            getBoard_def getScores_def)
  qed
qed

text \<open>The same, with the intermediate values named.\<close>

lemma applyMove_phases:
  assumes v: "isValidMove e pitIndex (currentPlayer e)"
  obtains b1 pos sq rg cap b2 where
    "sowPhase e pitIndex = (b1, pos, sq)"
    "PIT_RANGE (currentPlayer e) = Some rg"
    "captureStep b1 pos (currentPlayer e) (pos = rstore rg) = Inr (cap, b2)"
    "applyMove e pitIndex =
       (Inr \<lparr>ms_player = currentPlayer e, ms_pitIndex = pitIndex,
               stonesPicked = slot (board e) pitIndex, sequence = sq, lastPosition = pos,
               landedInStore = (pos = rstore rg), capture = cap,
               sweep = (if anySideEmpty b2 then Some (fst (collectRemainingStones b2)) else None),
               extraTurn = (pos = rstore rg),
               ms_board = (if anySideEmpty b2 then snd (collectRemainingStones b2) else b2),
               ms_currentPlayer = (if pos \<noteq> rstore rg \<and> \<not> anySideEmpty b2
                                   then 1 - currentPlayer e else currentPlayer e),
               ms_gameOver = anySideEmpty b2,
               ms_scores = boardScores (if anySideEmpty b2 then snd (collectRemainingStones b2) else b2)\<rparr>,
        e\<lparr>board := (if anySideEmpty b2 then snd (collectRemainingStones b2) else b2),
          currentPlayer := (if pos \<noteq> rstore rg \<and> \<not> anySideEmpty b2
                            then 1 - currentPlayer e else currentPlayer e),
          gameOver := anySideEmpty b2\<rparr>)"
proof -
  obtain b1 pos sq where s: "sowPhase e pitIndex = (b1, pos, sq)"
    by (cases "sowPhase e pitIndex") auto
  from v obtain rg where r: "PIT_RANGE (currentPlayer e) = Some rg"
    by (auto simp: isValidMove_def split: if_splits option.splits)
  from captureStep_total[OF r] obtain cap b2
    where c: "captureStep b1 pos (currentPlayer e) (pos = rstore rg) = Inr (cap, b2)"
    by blast
  from applyMove_valid[OF v s r c] s r c that show ?thesis
    by (simp add: Let_def)
qed

lemma applyMove_invalid:
  "gameOver e \<or> \<not> isValidMove e pitIndex (currentPlayer e) \<Longrightarrow>
     applyMove e pitIndex = (Inl (if gameOver e then GameEnded else InvalidMove pitIndex), e)"
  by (auto simp: applyMove_def)

lemma applyMove_Inr_valid:
  "applyMove e pitIndex = (Inr m, e') \<Longrightarrow> isValidMove e pitIndex (currentPlayer e)"
  by (auto simp: applyMove_def split: if_splits)

section \<open>Stone counts through the phases\<close>

lemma upto_0_5: "[0..5::int] = [0, 1, 2, 3, 4, 5]"
  by (simp add: upto_rec1)

lemma upto_7_12: "[7..12::int] = [7, 8, 9, 10, 11, 12]"
  by (simp add: upto_rec1)

lemma length14:
  "length (b::int list) = 14 \<Longrightarrow> \<exists>a0 a1 a2 a3 a4 a5 a6 a7 a8 a9 a10 a11 a12 a13.
     b = [a0, a1, a2, a3, a4, a5, a6, a7, a8, a9, a10, a11, a12, a13]"
  by (simp add: numeral_eq_Suc length_Suc_conv) blast

lemma tryCapture_None:
  "tryCapture b position player = Inr (None, b2) \<Longrightarrow> b2 = b"
  by (auto simp: tryCapture_def Let_def split: sum.splits if_splits option.splits)

lemma tryCapture_Some:
  assumes "tryCapture b position player = Inr (Some c, b2)"
  shows "\<exists>rg. PIT_RANGE player = Some rg
          \<and> rstart rg \<le> position \<and> position \<le> rend rg
          \<and> slot b position = 1 \<and> slot b (12 - position) \<noteq> 0
          \<and> c = \<lparr>cap_pit = position, opposite = 12 - position, store = rstore rg,
                   captured = slot b (12 - position) + 1\<rparr>
          \<and> b2 = setSlot (setSlot (setSlot b (rstore rg) (slot b (rstore rg) + (slot b (12 - position) + 1)))
                     position 0) (12 - position) 0"
  using assms
  by (auto simp: tryCapture_def isOwnSide_def Let_def split: sum.splits if_splits option.splits)

lemma tryCapture_sum:
  assumes len: "length b = 14" and t: "tryCapture b position player = Inr (cap, b2)"
  shows "sum_list b2 = sum_list b \<and> length b2 = 14"
proof (cases cap)
  case None
  with t tryCapture_None show ?thesis using len by blast
next
  case (Some c)
  with t tryCapture_Some[of b position player c b2] obtain rg where
    r: "PIT_RANGE player = Some rg" and own: "rstart rg \<le> position" "position \<le> rend rg"
    and one: "slot b position = 1"
    and b2: "b2 = setSlot (setSlot (setSlot b (rstore rg) (slot b (rstore rg) + (slot b (12 - position) + 1)))
                     position 0) (12 - position) 0"
    by blast
  from r own have idx: "nat (rstore rg) < 14" "nat position < 14" "nat (12 - position) < 14"
      "nat (rstore rg) \<noteq> nat position" "nat (rstore rg) \<noteq> nat (12 - position)"
      "nat position \<noteq> nat (12 - position)"
    by (auto simp: PIT_RANGE_Some)
  with len one show ?thesis
    unfolding b2 by (simp add: setSlot_def slot_def sum_list_update_int)
qed

lemma collect_sum:
  assumes len: "length b = 14"
  shows "sum_list (snd (collectRemainingStones b)) = sum_list b
       \<and> length (snd (collectRemainingStones b)) = 14"
proof -
  from length14[OF len] obtain a0 a1 a2 a3 a4 a5 a6 a7 a8 a9 a10 a11 a12 a13 where
    b: "b = [a0, a1, a2, a3, a4, a5, a6, a7, a8, a9, a10, a11, a12, a13]" by blast
  show ?thesis
    unfolding b
    by (simp add: collectRemainingStones_def sumRange_def zeroRange_def upto_0_5 upto_7_12
          slot_def setSlot_def Let_def)
qed

lemma sowPhase_sum:
  assumes len: "length (board e) = 14" and v: "isValidMove e pitIndex (currentPlayer e)"
    and s: "sowPhase e pitIndex = (b1, pos, sq)"
  shows "sum_list b1 = sum_list (board e) \<and> length b1 = 14"
proof -
  from v have pit: "0 \<le> pitIndex" "nat pitIndex < 14" "slot (board e) pitIndex > 0"
    by (auto simp: isValidMove_cases)
  have l0: "length (setSlot (board e) pitIndex 0) = 14" using len by (simp add: setSlot_def)
  have "sum_list (setSlot (board e) pitIndex 0) = sum_list (board e) - slot (board e) pitIndex"
    using len pit by (simp add: setSlot_def slot_def sum_list_update_int)
  with sow_sum[OF l0, of "currentPlayer e" "slot (board e) pitIndex" pitIndex "[]"] s pit(3)
  have "sum_list b1 = sum_list (board e)" by (simp add: sowPhase_def)
  moreover from sow_length[of "currentPlayer e" "setSlot (board e) pitIndex 0" "slot (board e) pitIndex" pitIndex "[]"] s l0
  have "length b1 = 14" by (simp add: sowPhase_def)
  ultimately show ?thesis by simp
qed

lemma applyMove_sum:
  assumes len: "length (board e) = 14"
  shows "sum_list (board (snd (applyMove e pitIndex))) = sum_list (board e)
       \<and> length (board (snd (applyMove e pitIndex))) = 14"
proof (cases "gameOver e \<or> \<not> isValidMove e pitIndex (currentPlayer e)")
  case True
  from applyMove_invalid[OF this] len show ?thesis by simp
next
  case False
  then have v: "isValidMove e pitIndex (currentPlayer e)" by simp
  show ?thesis
  proof (rule applyMove_phases[OF v], goal_cases)
    case (1 b1 pos sq rg cap b2)
    from sowPhase_sum[OF len v "1"(1)] have b1: "sum_list b1 = sum_list (board e)" "length b1 = 14"
      by simp_all
    have b2: "sum_list b2 = sum_list b1 \<and> length b2 = 14"
    proof (cases "pos = rstore rg")
      case True
      with "1"(3) b1 show ?thesis by (simp add: captureStep_def)
    next
      case False
      with "1"(3) have "tryCapture b1 pos (currentPlayer e) = Inr (cap, b2)"
        by (simp add: captureStep_def)
      from tryCapture_sum[OF b1(2) this] show ?thesis .
    qed
    with collect_sum[of b2] b1 "1"(4) show ?case by simp
  qed
qed

lemma sumRange_zero_iff:
  assumes len: "length b = 14" and nn: "list_all (\<lambda>x. 0 \<le> x) b"
  shows "(sumRange b 0 5 = 0 \<longleftrightarrow> isSideEmpty b 0 = Inr True)
       \<and> (sumRange b 7 12 = 0 \<longleftrightarrow> isSideEmpty b 1 = Inr True)"
proof -
  from length14[OF len] obtain a0 a1 a2 a3 a4 a5 a6 a7 a8 a9 a10 a11 a12 a13 where
    b: "b = [a0, a1, a2, a3, a4, a5, a6, a7, a8, a9, a10, a11, a12, a13]" by blast
  from nn show ?thesis
    unfolding b
    by (simp add: sumRange_def isSideEmpty_def PIT_RANGE_def upto_0_5 upto_7_12 slot_def) arith
qed

lemma collect_swept:
  assumes len: "length b = 14" and nn: "list_all (\<lambda>x. 0 \<le> x) b"
  shows "snd (collectRemainingStones b) =
           [0, 0, 0, 0, 0, 0, slot b 6 + sumRange b 0 5, 0, 0, 0, 0, 0, 0, slot b 13 + sumRange b 7 12]"
proof -
  from length14[OF len] obtain a0 a1 a2 a3 a4 a5 a6 a7 a8 a9 a10 a11 a12 a13 where
    b: "b = [a0, a1, a2, a3, a4, a5, a6, a7, a8, a9, a10, a11, a12, a13]" by blast
  from nn show ?thesis
    unfolding b
    by (simp add: collectRemainingStones_def sumRange_def zeroRange_def upto_0_5 upto_7_12
          slot_def setSlot_def Let_def)
qed

lemma tryCapture_nonneg:
  assumes nn: "list_all (\<lambda>x. 0 \<le> x) b" and len: "length b = 14"
    and t: "tryCapture b position player = Inr (cap, b2)"
  shows "list_all (\<lambda>x. 0 \<le> x) b2"
proof (cases cap)
  case None
  with t tryCapture_None nn show ?thesis by blast
next
  case (Some c)
  with t tryCapture_Some[of b position player c b2] obtain rg where
    r: "PIT_RANGE player = Some rg" and own: "rstart rg \<le> position" "position \<le> rend rg"
    and b2: "b2 = setSlot (setSlot (setSlot b (rstore rg) (slot b (rstore rg) + (slot b (12 - position) + 1)))
                     position 0) (12 - position) 0"
    by blast
  from r own len have "nat (rstore rg) < length b" "nat (12 - position) < length b"
    by (auto simp: PIT_RANGE_Some)
  with nn have "0 \<le> slot b (rstore rg)" "0 \<le> slot b (12 - position)"
    by (simp_all add: list_all_slot)
  then have "0 \<le> slot b (rstore rg) + (slot b (12 - position) + 1)" by simp
  with nn show ?thesis
    unfolding b2 by (intro list_all_setSlot) simp_all
qed

lemma sowPhase_nonneg:
  assumes nn: "list_all (\<lambda>x. 0 \<le> x) (board e)" and s: "sowPhase e pitIndex = (b1, pos, sq)"
  shows "list_all (\<lambda>x. 0 \<le> x) b1"
proof -
  have "list_all (\<lambda>x. 0 \<le> x) (setSlot (board e) pitIndex 0)"
    using nn by (intro list_all_setSlot) simp_all
  from sow_nonneg[OF this, of "currentPlayer e" "slot (board e) pitIndex" pitIndex "[]"] s
  show ?thesis by (simp add: sowPhase_def)
qed

lemma captureStep_wf:
  assumes nn: "list_all (\<lambda>x. 0 \<le> x) b1" and len: "length b1 = 14"
    and c: "captureStep b1 pos player landed = Inr (cap, b2)"
  shows "list_all (\<lambda>x. 0 \<le> x) b2 \<and> length b2 = 14"
proof (cases landed)
  case True
  with c nn len show ?thesis by (simp add: captureStep_def)
next
  case False
  with c have t: "tryCapture b1 pos player = Inr (cap, b2)" by (simp add: captureStep_def)
  from tryCapture_nonneg[OF nn len t] tryCapture_sum[OF len t] show ?thesis by simp
qed

lemma last_drop:
  assumes v: "isValidMove e pitIndex (currentPlayer e)" and len: "length (board e) = 14"
    and s: "sowPhase e pitIndex = (b1, pos, sq)"
  shows "b1 = setSlot (beforeLastDrop e pitIndex) pos (slot (beforeLastDrop e pitIndex) pos + 1)
       \<and> slot b1 pos = slot (beforeLastDrop e pitIndex) pos + 1"
proof -
  from v have pk: "slot (board e) pitIndex > 0" by (simp add: isValidMove_cases)
  obtain b' pos' sq' where
    p: "sow (currentPlayer e) (setSlot (board e) pitIndex 0) (slot (board e) pitIndex - 1) pitIndex [] = (b', pos', sq')"
    by (cases "sow (currentPlayer e) (setSlot (board e) pitIndex 0) (slot (board e) pitIndex - 1) pitIndex []") auto
  then have bl: "beforeLastDrop e pitIndex = b'" by (simp add: beforeLastDrop_def)
  from sow_length[of "currentPlayer e" "setSlot (board e) pitIndex 0" "slot (board e) pitIndex - 1" pitIndex "[]"] p len
  have l: "length b' = 14" by (simp add: setSlot_def)
  define q where "q = (if shouldSkipPosition ((pos' + 1) mod 14) (currentPlayer e)
                       then ((pos' + 1) mod 14 + 1) mod 14 else (pos' + 1) mod 14)"
  have m14: "\<And>x::int. nat (x mod 14) < 14" by (simp add: nat_less_iff)
  have qr: "0 \<le> q" "nat q < 14" by (simp_all add: q_def m14)
  from sow_split[OF pk, of "currentPlayer e" "setSlot (board e) pitIndex 0" pitIndex "[]"] p s
  have "(b1, pos, sq) = sow (currentPlayer e) b' 1 pos' sq'" by (simp add: sowPhase_def)
  then have "b1 = setSlot b' q (slot b' q + 1)" "pos = q"
    by (simp_all add: sow_one q_def Let_def)
  with qr l bl show ?thesis by (simp add: setSlot_def slot_def)
qed

lemma tryCapture_iff:
  assumes "PIT_RANGE player = Some rg" "tryCapture b position player = Inr (cap, b2)"
  shows "cap \<noteq> None \<longleftrightarrow>
           rstart rg \<le> position \<and> position \<le> rend rg \<and> slot b position = 1
           \<and> slot b (12 - position) \<noteq> 0"
  using assms
  by (auto simp: tryCapture_def isOwnSide_def Let_def split: if_splits)

lemma playMoves_sum:
  "length (board e) = 14 \<Longrightarrow> playMoves e pits = Inr e' \<Longrightarrow>
     sum_list (board e') = sum_list (board e) \<and> length (board e') = 14"
proof (induction pits arbitrary: e)
  case Nil
  then show ?case by simp
next
  case (Cons p ps)
  obtain r e1 where am: "applyMove e p = (r, e1)" by (cases "applyMove e p")
  with Cons.prems(2) obtain m where r: "r = Inr m" and rest: "playMoves e1 ps = Inr e'"
    by (cases r) auto
  from applyMove_sum[OF Cons.prems(1), of p] am
  have e1: "sum_list (board e1) = sum_list (board e)" "length (board e1) = 14" by simp_all
  from Cons.IH[OF e1(2) rest] e1(1) show ?case by simp
qed

section \<open>Worked examples\<close>

lemmas sow_eval = sow_drop sow_skip sow_zero shouldSkipPosition_def slot_def setSlot_def
lemmas engine_eval = applyMove_def isValidMove_def PIT_RANGE_def raising_def isOwnStore_def isOwnSide_def
  isSideEmpty_def getBoard_def getScores_def boardScores_def captureStep_def tryCapture_def
  collectRemainingStones_def sumRange_def zeroRange_def slot_def setSlot_def Let_def
  upto_0_5 upto_7_12

lemma example_extra_turn:
  "applyMove (newEngine None None) 2 =
  (Inr \<lparr>ms_player = 0, ms_pitIndex = 2, stonesPicked = 4,
         sequence = [3, 4, 5, 6], lastPosition = 6, landedInStore = True,
         capture = None, sweep = None, extraTurn = True,
         ms_board = [4, 4, 0, 5, 5, 5, 1, 4, 4, 4, 4, 4, 4, 0],
         ms_currentPlayer = 0, ms_gameOver = False,
         ms_scores = \<lparr>human = 1, ai = 0\<rparr>\<rparr>,
  \<lparr>initialBoard = [4, 4, 4, 4, 4, 4, 0, 4, 4, 4, 4, 4, 4, 0],
     initialPlayer = Some 0,
     board = [4, 4, 0, 5, 5, 5, 1, 4, 4, 4, 4, 4, 4, 0], currentPlayer = 0,
     gameOver = False\<rparr>)"
proof -
  have s: "sowPhase \<lparr>initialBoard = [4, 4, 4, 4, 4, 4, 0, 4, 4, 4, 4, 4, 4, 0],
     initialPlayer = Some 0, board = [4, 4, 4, 4, 4, 4, 0, 4, 4, 4, 4, 4, 4, 0], currentPlayer = 0,
     gameOver = False\<rparr> 2 = ([4, 4, 0, 5, 5, 5, 1, 4, 4, 4, 4, 4, 4, 0], 6, [3,4,5,6])"
    by (simp add: sowPhase_def sow_eval)
  show ?thesis
    unfolding newEngine_eq by (simp add: INITIAL_BOARD_def engine_eval s)
qed

lemma example_skip_store:
  "applyMove (newEngine (Some [10,0,0,0,0,0,0,4,4,4,4,4,4,0]) (Some 0)) 0 =
  (Inr \<lparr>ms_player = 0, ms_pitIndex = 0, stonesPicked = 10,
         sequence = [1, 2, 3, 4, 5, 6, 7, 8, 9, 10], lastPosition = 10,
         landedInStore = False, capture = None, sweep = None,
         extraTurn = False,
         ms_board = [0, 1, 1, 1, 1, 1, 1, 5, 5, 5, 5, 4, 4, 0],
         ms_currentPlayer = 1, ms_gameOver = False,
         ms_scores = \<lparr>human = 1, ai = 0\<rparr>\<rparr>,
  \<lparr>initialBoard = [10, 0, 0, 0, 0, 0, 0, 4, 4, 4, 4, 4, 4, 0],
     initialPlayer = Some 0,
     board = [0, 1, 1, 1, 1, 1, 1, 5, 5, 5, 5, 4, 4, 0], currentPlayer = 1,
     gameOver = False\<rparr>)"
proof -
  have s: "sowPhase \<lparr>initialBoard = [10,0,0,0,0,0,0,4,4,4,4,4,4,0],
     initialPlayer = Some 0, board = [10,0,0,0,0,0,0,4,4,4,4,4,4,0], currentPlayer = 0,
     gameOver = False\<rparr> 0 = ([0, 1, 1, 1, 1, 1, 1, 5, 5, 5, 5, 4, 4, 0], 10, [1, 2, 3, 4, 5, 6, 7, 8, 9, 10])"
    by (simp add: sowPhase_def sow_eval)
  show ?thesis
    unfolding newEngine_eq by (simp add: engine_eval s)
qed

text \<open>A move that passes the opponent's store: 13 stones from pit 7 of player 1.\<close>
lemma example_wrap:
  "sowPhase \<lparr>initialBoard = [1,1,1,1,1,1,3,13,0,0,0,0,0,0],
     initialPlayer = Some 1, board = [1,1,1,1,1,1,3,13,0,0,0,0,0,0], currentPlayer = 1,
     gameOver = False\<rparr> 7 = ([2,2,2,2,2,2,3,1,1,1,1,1,1,1], 7, [8,9,10,11,12,13,0,1,2,3,4,5,7])"
  by (simp add: sowPhase_def sow_eval)

lemma example_wrap_move:
  "applyMove \<lparr>initialBoard = [1,1,1,1,1,1,3,13,0,0,0,0,0,0],
     initialPlayer = Some 1, board = [1,1,1,1,1,1,3,13,0,0,0,0,0,0], currentPlayer = 1,
     gameOver = False\<rparr> 7 =
   (Inr \<lparr>ms_player = 1, ms_pitIndex = 7, stonesPicked = 13,
         sequence = [8, 9, 10, 11, 12, 13, 0, 1, 2, 3, 4, 5, 7],
         lastPosition = 7, landedInStore = False,
         capture = Some \<lparr>cap_pit = 7, opposite = 5, store = 13, captured = 3\<rparr>,
         sweep = None, extraTurn = False,
         ms_board = [2, 2, 2, 2, 2, 0, 3, 0, 1, 1, 1, 1, 1, 4],
         ms_currentPlayer = 0, ms_gameOver = False,
         ms_scores = \<lparr>human = 3, ai = 4\<rparr>\<rparr>,
    \<lparr>initialBoard = [1, 1, 1, 1, 1, 1, 3, 13, 0, 0, 0, 0, 0, 0],
     initialPlayer = Some 1,
     board = [2, 2, 2, 2, 2, 0, 3, 0, 1, 1, 1, 1, 1, 4], currentPlayer = 0,
     gameOver = False\<rparr>)"
  by (simp add: engine_eval example_wrap)

lemma example_second_move:
  "applyMove \<lparr>initialBoard = [4, 4, 4, 4, 4, 4, 0, 4, 4, 4, 4, 4, 4, 0], initialPlayer = Some 0,
     board = [4, 4, 0, 5, 5, 5, 1, 4, 4, 4, 4, 4, 4, 0], currentPlayer = 0, gameOver = False\<rparr> 5 =
   (Inr \<lparr>ms_player = 0, ms_pitIndex = 5, stonesPicked = 5,
         sequence = [6, 7, 8, 9, 10], lastPosition = 10, landedInStore = False,
         capture = None, sweep = None, extraTurn = False,
         ms_board = [4, 4, 0, 5, 5, 0, 2, 5, 5, 5, 5, 4, 4, 0],
         ms_currentPlayer = 1, ms_gameOver = False,
         ms_scores = \<lparr>human = 2, ai = 0\<rparr>\<rparr>,
    \<lparr>initialBoard = [4, 4, 4, 4, 4, 4, 0, 4, 4, 4, 4, 4, 4, 0], initialPlayer = Some 0,
     board = [4, 4, 0, 5, 5, 0, 2, 5, 5, 5, 5, 4, 4, 0], currentPlayer = 1, gameOver = False\<rparr>)"
proof -
  have s: "sowPhase \<lparr>initialBoard = [4, 4, 4, 4, 4, 4, 0, 4, 4, 4, 4, 4, 4, 0], initialPlayer = Some 0,
     board = [4, 4, 0, 5, 5, 5, 1, 4, 4, 4, 4, 4, 4, 0], currentPlayer = 0, gameOver = False\<rparr> 5
     = ([4, 4, 0, 5, 5, 0, 2, 5, 5, 5, 5, 4, 4, 0], 10, [6, 7, 8, 9, 10])"
    by (simp add: sowPhase_def sow_eval)
  show ?thesis by (simp add: engine_eval s)
qed

lemma example_two_moves:
  "playMoves (newEngine None None) [2, 5] =
     Inr \<lparr>initialBoard = [4, 4, 4, 4, 4, 4, 0, 4, 4, 4, 4, 4, 4, 0], initialPlayer = Some 0,
          board = [4, 4, 0, 5, 5, 0, 2, 5, 5, 5, 5, 4, 4, 0], currentPlayer = 1, gameOver = False\<rparr>"
  by (simp add: example_extra_turn example_second_move)

lemma example_sweep:
  "applyMove (newEngine (Some [0,0,0,0,0,1,20,0,0,0,0,0,5,15]) (Some 0)) 5 = 
 (Inr \<lparr>ms_player = 0, ms_pitIndex = 5, stonesPicked = 1, sequence = [6],
         lastPosition = 6, landedInStore = True, capture = None,
         sweep =
           Some
            \<lparr>humanRemaining = 0, aiRemaining = 5,
               sw_board = [0, 0, 0, 0, 0, 0, 21, 0, 0, 0, 0, 0, 0, 20],
               sw_scores = \<lparr>human = 21, ai = 20\<rparr>\<rparr>,
         extraTurn = True,
         ms_board = [0, 0, 0, 0, 0, 0, 21, 0, 0, 0, 0, 0, 0, 20],
         ms_currentPlayer = 0, ms_gameOver = True,
         ms_scores = \<lparr>human = 21, ai = 20\<rparr>\<rparr>,
  \<lparr>initialBoard = [0, 0, 0, 0, 0, 1, 20, 0, 0, 0, 0, 0, 5, 15],
     initialPlayer = Some 0,
     board = [0, 0, 0, 0, 0, 0, 21, 0, 0, 0, 0, 0, 0, 20],
     currentPlayer = 0, gameOver = True\<rparr>)"
proof -
  have s: "sowPhase \<lparr>initialBoard = [0,0,0,0,0,1,20,0,0,0,0,0,5,15],
     initialPlayer = Some 0, board = [0,0,0,0,0,1,20,0,0,0,0,0,5,15], currentPlayer = 0,
     gameOver = False\<rparr> 5 = ([0,0,0,0,0,0,21,0,0,0,0,0,5,15], 6, [6])"
    by (simp add: sowPhase_def sow_eval)
  show ?thesis
    unfolding newEngine_eq by (simp add: engine_eval s)
qed

lemma example_capture:
  "applyMove (newEngine (Some [0,0,0,1,0,0,0,4,3,4,4,4,4,0]) (Some 0)) 3 =
   (Inr \<lparr>ms_player = 0, ms_pitIndex = 3, stonesPicked = 1, sequence = [4],
         lastPosition = 4, landedInStore = False,
         capture = Some \<lparr>cap_pit = 4, opposite = 8, store = 6, captured = 4\<rparr>,
         sweep =
           Some
            \<lparr>humanRemaining = 0, aiRemaining = 20,
               sw_board = [0, 0, 0, 0, 0, 0, 4, 0, 0, 0, 0, 0, 0, 20],
               sw_scores = \<lparr>human = 4, ai = 20\<rparr>\<rparr>,
         extraTurn = False,
         ms_board = [0, 0, 0, 0, 0, 0, 4, 0, 0, 0, 0, 0, 0, 20],
         ms_currentPlayer = 0, ms_gameOver = True,
         ms_scores = \<lparr>human = 4, ai = 20\<rparr>\<rparr>,
    \<lparr>initialBoard = [0, 0, 0, 1, 0, 0, 0, 4, 3, 4, 4, 4, 4, 0],
     initialPlayer = Some 0,
     board = [0, 0, 0, 0, 0, 0, 4, 0, 0, 0, 0, 0, 0, 20], currentPlayer = 0,
     gameOver = True\<rparr>)"
proof -
  have s: "sowPhase \<lparr>initialBoard = [0,0,0,1,0,0,0,4,3,4,4,4,4,0],
     initialPlayer = Some 0, board = [0,0,0,1,0,0,0,4,3,4,4,4,4,0], currentPlayer = 0,
     gameOver = False\<rparr> 3 = ([0,0,0,0,1,0,0,4,3,4,4,4,4,0], 4, [4])"
    by (simp add: sowPhase_def sow_eval)
  show ?thesis
    unfolding newEngine_eq by (simp add: engine_eval s)
qed

lemma example_capture_sow:
  "sowPhase (newEngine (Some [0,0,0,1,0,0,0,4,3,4,4,4,4,0]) (Some 0)) 3
     = ([0,0,0,0,1,0,0,4,3,4,4,4,4,0], 4, [4])"
  unfolding newEngine_eq by (simp add: sowPhase_def sow_eval)

lemma example_capture_step:
  "captureStep [0,0,0,0,1,0,0,4,3,4,4,4,4,0] 4 0 False
     = Inr (Some \<lparr>cap_pit = 4, opposite = 8, store = 6, captured = 4\<rparr>,
            [0,0,0,0,0,0,4,4,0,4,4,4,4,0])"
  by (simp add: engine_eval)

lemma example_capture_only:
  "applyMove (newEngine (Some [0,0,1,0,2,0,0,4,3,4,4,4,4,0]) (Some 0)) 2 =
    (Inr \<lparr>ms_player = 0, ms_pitIndex = 2, stonesPicked = 1, sequence = [3],
         lastPosition = 3, landedInStore = False,
         capture = Some \<lparr>cap_pit = 3, opposite = 9, store = 6, captured = 5\<rparr>,
         sweep = None, extraTurn = False,
         ms_board = [0, 0, 0, 0, 2, 0, 5, 4, 3, 0, 4, 4, 4, 0],
         ms_currentPlayer = 1, ms_gameOver = False,
         ms_scores = \<lparr>human = 5, ai = 0\<rparr>\<rparr>,
     \<lparr>initialBoard = [0, 0, 1, 0, 2, 0, 0, 4, 3, 4, 4, 4, 4, 0],
      initialPlayer = Some 0,
      board = [0, 0, 0, 0, 2, 0, 5, 4, 3, 0, 4, 4, 4, 0], currentPlayer = 1,
      gameOver = False\<rparr>)"
proof -
  have s: "sowPhase \<lparr>initialBoard = [0,0,1,0,2,0,0,4,3,4,4,4,4,0],
     initialPlayer = Some 0, board = [0,0,1,0,2,0,0,4,3,4,4,4,4,0], currentPlayer = 0,
     gameOver = False\<rparr> 2 = ([0,0,0,1,2,0,0,4,3,4,4,4,4,0], 3, [3])"
    by (simp add: sowPhase_def sow_eval)
  show ?thesis
    unfolding newEngine_eq by (simp add: engine_eval s)
qed

lemma example_capture_only_sow:
  "sowPhase (newEngine (Some [0,0,1,0,2,0,0,4,3,4,4,4,4,0]) (Some 0)) 2
     = ([0,0,0,1,2,0,0,4,3,4,4,4,4,0], 3, [3])"
  unfolding newEngine_eq by (simp add: sowPhase_def sow_eval)

section \<open>Errors of applyMove\<close>

text \<open>
  C6.  \<^verbatim>\<open>applyMove\<close> raises exactly when the game is over or the pit is not a valid move
  for the current player, that is, when the pit is outside the current player's own pits
  or holds no stone; the exception is one of the two errors thrown at the head of the
  function, and the engine is then exactly as it was before the call.
\<close>

theorem applyMove_raises_iff:
  "(isl (fst (applyMove e pitIndex)) \<longleftrightarrow> gameOver e \<or> \<not> isValidMove e pitIndex (currentPlayer e))
   \<and> (isValidMove e pitIndex (currentPlayer e) \<longleftrightarrow>
        \<not> gameOver e
        \<and> ((currentPlayer e = 0 \<and> 0 \<le> pitIndex \<and> pitIndex \<le> 5)
           \<or> (currentPlayer e = 1 \<and> 7 \<le> pitIndex \<and> pitIndex \<le> 12))
        \<and> slot (board e) pitIndex > 0)
   \<and> (isl (fst (applyMove e pitIndex)) \<longrightarrow>
        snd (applyMove e pitIndex) = e
        \<and> (fst (applyMove e pitIndex) = Inl GameEnded
           \<or> fst (applyMove e pitIndex) = Inl (InvalidMove pitIndex)))"
proof (cases "gameOver e \<or> \<not> isValidMove e pitIndex (currentPlayer e)")
  case True
  from applyMove_invalid[OF this] True show ?thesis
    by (auto simp: isValidMove_cases)
next
  case False
  then have v: "isValidMove e pitIndex (currentPlayer e)" by simp
  show ?thesis
  proof (rule applyMove_phases[OF v], goal_cases)
    case (1 b1 pos sq rg cap b2)
    from False "1"(4) show ?case
      by (simp add: isValidMove_cases)
  qed
qed

theorem applyMove_raises_iff_witness:
  "isl (fst (applyMove (newEngine None None) 7))
   \<and> \<not> isValidMove (newEngine None None) 7 (currentPlayer (newEngine None None))
   \<and> snd (applyMove (newEngine None None) 7) = newEngine None None
   \<and> fst (applyMove (newEngine None None) 7) = Inl (InvalidMove 7)"
  using applyMove_raises_iff[of "newEngine None None" 7]
  by (simp add: newEngine_eq isValidMove_def PIT_RANGE_def applyMove_def)

section \<open>The sowing walk in the move summary\<close>

text \<open>
  C10.  After a successful \<^verbatim>\<open>applyMove\<close> the summary's sequence has as many entries as
  stones were picked up, it is not empty, and \<open>lastPosition\<close> is its final element.
\<close>

theorem summary_sowing_consistent:
  assumes "applyMove e pitIndex = (Inr m, e')"
  shows "stonesPicked m = slot (board e) pitIndex
       \<and> int (length (sequence m)) = stonesPicked m
       \<and> sequence m \<noteq> []
       \<and> lastPosition m = last (sequence m)"
proof -
  from assms have v: "isValidMove e pitIndex (currentPlayer e)" by (rule applyMove_Inr_valid)
  then have pos: "slot (board e) pitIndex > 0" by (simp add: isValidMove_cases)
  show ?thesis
  proof (rule applyMove_phases[OF v], goal_cases)
    case (1 b1 pos sq rg cap b2)
    from "1"(4) assms have m: "stonesPicked m = slot (board e) pitIndex" "sequence m = sq" "lastPosition m = pos"
      by auto
    from "1"(1) sow_seq_length[of "currentPlayer e" "setSlot (board e) pitIndex 0" "slot (board e) pitIndex" pitIndex "[]"]
    have "length sq = nat (slot (board e) pitIndex)" by (simp add: sowPhase_def)
    moreover from "1"(1) sow_last[OF pos, of "currentPlayer e" "setSlot (board e) pitIndex 0" pitIndex "[]"]
    have "sq \<noteq> [] \<and> last sq = pos" by (simp add: sowPhase_def)
    ultimately show ?case using m pos by simp
  qed
qed

theorem summary_sowing_consistent_witness:
  "\<exists>m e'. applyMove (newEngine None None) 2 = (Inr m, e')
     \<and> stonesPicked m = 4 \<and> int (length (sequence m)) = stonesPicked m
     \<and> sequence m = [3, 4, 5, 6] \<and> lastPosition m = last (sequence m)"
  using summary_sowing_consistent[OF example_extra_turn] example_extra_turn
  by simp

text \<open>
  C4.  In a successful move of player \<open>p\<close> the sequence never holds the opponent's store
  (13 for player 0, 6 for player 1); a skipped position leaves the number of stones in hand
  unchanged, so the sequence is as long as the number of stones picked up; and the sowing
  loop leaves the opponent's store as it was.  From \<open>[10,0,0,0,0,0,0,4,4,4,4,4,4,0]\<close>,
  player 0 playing pit 0 sows into 1..10 and slot 13 stays 0.
\<close>

theorem sowing_skips_opponent_store:
  "(applyMove e pitIndex = (Inr m, e') \<and> sowPhase e pitIndex = (b1, pos, sq)
      \<and> q = (if currentPlayer e = 0 then 13 else 6)
     \<longrightarrow> (currentPlayer e = 0 \<or> currentPlayer e = 1)
         \<and> sequence m = sq
         \<and> q \<notin> set (sequence m)
         \<and> int (length (sequence m)) = stonesPicked m
         \<and> slot b1 q = slot (board e) q)
   \<and> (0 < n \<and> shouldSkipPosition ((position + 1) mod 14) player
        \<longrightarrow> sow player b n position sq0 = sow player b n ((position + 1) mod 14) sq0)
   \<and> applyMove (newEngine (Some [10,0,0,0,0,0,0,4,4,4,4,4,4,0]) (Some 0)) 0 =
      (Inr \<lparr>ms_player = 0, ms_pitIndex = 0, stonesPicked = 10,
         sequence = [1, 2, 3, 4, 5, 6, 7, 8, 9, 10], lastPosition = 10,
         landedInStore = False, capture = None, sweep = None,
         extraTurn = False,
         ms_board = [0, 1, 1, 1, 1, 1, 1, 5, 5, 5, 5, 4, 4, 0],
         ms_currentPlayer = 1, ms_gameOver = False,
         ms_scores = \<lparr>human = 1, ai = 0\<rparr>\<rparr>,
       \<lparr>initialBoard = [10, 0, 0, 0, 0, 0, 0, 4, 4, 4, 4, 4, 4, 0],
        initialPlayer = Some 0,
        board = [0, 1, 1, 1, 1, 1, 1, 5, 5, 5, 5, 4, 4, 0], currentPlayer = 1,
        gameOver = False\<rparr>)"
proof (intro conjI impI)
  assume h: "applyMove e pitIndex = (Inr m, e') \<and> sowPhase e pitIndex = (b1, pos, sq)
      \<and> q = (if currentPlayer e = 0 then 13 else 6)"
  then have am: "applyMove e pitIndex = (Inr m, e')" and s: "sowPhase e pitIndex = (b1, pos, sq)"
    and q: "q = (if currentPlayer e = 0 then 13 else 6)" by simp_all
  from am have v: "isValidMove e pitIndex (currentPlayer e)" by (rule applyMove_Inr_valid)
  then show p: "currentPlayer e = 0 \<or> currentPlayer e = 1" by (auto simp: isValidMove_cases)
  from v have picked: "slot (board e) pitIndex > 0" by (simp add: isValidMove_cases)
  from p q have skipq: "shouldSkipPosition q (currentPlayer e)"
    by (auto simp: shouldSkipPosition_def)
  show sq: "sequence m = sq"
  proof (rule applyMove_phases[OF v], goal_cases)
    case (1 b1' pos' sq' rg cap b2)
    with am s show ?case by auto
  qed
  have "stonesPicked m = slot (board e) pitIndex"
  proof (rule applyMove_phases[OF v], goal_cases)
    case (1 b1' pos' sq' rg cap b2)
    with am show ?case by auto
  qed
  moreover from s sow_seq_length[of "currentPlayer e" "setSlot (board e) pitIndex 0" "slot (board e) pitIndex" pitIndex "[]"]
  have "length sq = nat (slot (board e) pitIndex)" by (simp add: sowPhase_def)
  ultimately show "int (length (sequence m)) = stonesPicked m" using sq picked by simp
  from s sow_seq_set[of "currentPlayer e" "setSlot (board e) pitIndex 0" "slot (board e) pitIndex" pitIndex "[]"]
  have "set sq \<subseteq> {x. 0 \<le> x \<and> x < 14 \<and> \<not> shouldSkipPosition x (currentPlayer e)}"
    by (simp add: sowPhase_def)
  with skipq sq show "q \<notin> set (sequence m)" by auto
  from v p q have "nat pitIndex \<noteq> nat q" by (auto simp: isValidMove_cases)
  then have "slot (setSlot (board e) pitIndex 0) q = slot (board e) q"
    by (simp add: slot_def setSlot_def)
  with s sow_skipped_unchanged[OF skipq, of "setSlot (board e) pitIndex 0" "slot (board e) pitIndex" pitIndex "[]"]
  show "slot b1 q = slot (board e) q" by (simp add: sowPhase_def)
next
  assume "0 < n \<and> shouldSkipPosition ((position + 1) mod 14) player"
  then show "sow player b n position sq0 = sow player b n ((position + 1) mod 14) sq0"
    by (simp add: sow_skip)
next
  show "applyMove (newEngine (Some [10,0,0,0,0,0,0,4,4,4,4,4,4,0]) (Some 0)) 0 =
      (Inr \<lparr>ms_player = 0, ms_pitIndex = 0, stonesPicked = 10,
         sequence = [1, 2, 3, 4, 5, 6, 7, 8, 9, 10], lastPosition = 10,
         landedInStore = False, capture = None, sweep = None,
         extraTurn = False,
         ms_board = [0, 1, 1, 1, 1, 1, 1, 5, 5, 5, 5, 4, 4, 0],
         ms_currentPlayer = 1, ms_gameOver = False,
         ms_scores = \<lparr>human = 1, ai = 0\<rparr>\<rparr>,
       \<lparr>initialBoard = [10, 0, 0, 0, 0, 0, 0, 4, 4, 4, 4, 4, 4, 0],
        initialPlayer = Some 0,
        board = [0, 1, 1, 1, 1, 1, 1, 5, 5, 5, 5, 4, 4, 0], currentPlayer = 1,
        gameOver = False\<rparr>)"
    by (rule example_skip_store)
qed

theorem sowing_skips_opponent_store_witness:
  "applyMove \<lparr>initialBoard = [1,1,1,1,1,1,3,13,0,0,0,0,0,0], initialPlayer = Some 1,
              board = [1,1,1,1,1,1,3,13,0,0,0,0,0,0], currentPlayer = 1, gameOver = False\<rparr> 7 =
     (Inr \<lparr>ms_player = 1, ms_pitIndex = 7, stonesPicked = 13,
         sequence = [8, 9, 10, 11, 12, 13, 0, 1, 2, 3, 4, 5, 7],
         lastPosition = 7, landedInStore = False,
         capture = Some \<lparr>cap_pit = 7, opposite = 5, store = 13, captured = 3\<rparr>,
         sweep = None, extraTurn = False,
         ms_board = [2, 2, 2, 2, 2, 0, 3, 0, 1, 1, 1, 1, 1, 4],
         ms_currentPlayer = 0, ms_gameOver = False,
         ms_scores = \<lparr>human = 3, ai = 4\<rparr>\<rparr>,
      \<lparr>initialBoard = [1, 1, 1, 1, 1, 1, 3, 13, 0, 0, 0, 0, 0, 0], initialPlayer = Some 1,
       board = [2, 2, 2, 2, 2, 0, 3, 0, 1, 1, 1, 1, 1, 4], currentPlayer = 0,
       gameOver = False\<rparr>)
   \<and> sowPhase \<lparr>initialBoard = [1,1,1,1,1,1,3,13,0,0,0,0,0,0], initialPlayer = Some 1,
              board = [1,1,1,1,1,1,3,13,0,0,0,0,0,0], currentPlayer = 1, gameOver = False\<rparr> 7 =
       ([2,2,2,2,2,2,3,1,1,1,1,1,1,1], 7, [8,9,10,11,12,13,0,1,2,3,4,5,7])
   \<and> (6::int) \<notin> set [8, 9, 10, 11, 12, 13, 0, 1, 2, 3, 4, 5, 7]
   \<and> slot [2,2,2,2,2,2,3,1,1,1,1,1,1,1] 6 = slot [1,1,1,1,1,1,3,13,0,0,0,0,0,0] 6
   \<and> shouldSkipPosition ((5 + 1) mod 14) 1
   \<and> sow 1 [2,2,2,2,2,2,3,1,1,1,1,1,1,1] 1 5 [] = sow 1 [2,2,2,2,2,2,3,1,1,1,1,1,1,1] 1 ((5 + 1) mod 14) []"
proof -
  let ?e = "\<lparr>initialBoard = [1,1,1,1,1,1,3,13,0,0,0,0,0,0], initialPlayer = Some 1,
              board = [1,1,1,1,1,1,3,13,0,0,0,0,0,0], currentPlayer = 1, gameOver = False\<rparr>"
  let ?m = "\<lparr>ms_player = 1, ms_pitIndex = 7, stonesPicked = 13,
         sequence = [8, 9, 10, 11, 12, 13, 0, 1, 2, 3, 4, 5, 7],
         lastPosition = 7, landedInStore = False,
         capture = Some \<lparr>cap_pit = 7, opposite = 5, store = 13, captured = 3\<rparr>,
         sweep = None, extraTurn = False,
         ms_board = [2, 2, 2, 2, 2, 0, 3, 0, 1, 1, 1, 1, 1, 4],
         ms_currentPlayer = 0, ms_gameOver = False,
         ms_scores = \<lparr>human = 3, ai = 4\<rparr>\<rparr>"
  let ?e' = "\<lparr>initialBoard = [1, 1, 1, 1, 1, 1, 3, 13, 0, 0, 0, 0, 0, 0], initialPlayer = Some 1,
       board = [2, 2, 2, 2, 2, 0, 3, 0, 1, 1, 1, 1, 1, 4], currentPlayer = 0,
       gameOver = False\<rparr>"
  have a: "applyMove ?e 7 = (Inr ?m, ?e')" by (rule example_wrap_move)
  have k: "shouldSkipPosition ((5 + 1) mod 14) 1" by (simp add: shouldSkipPosition_def)
  from sowing_skips_opponent_store[where e = ?e and pitIndex = 7 and m = ?m and e' = ?e'
          and q = 6 and n = 1 and position = 5 and player = 1
          and b = "[2,2,2,2,2,2,3,1,1,1,1,1,1,1]" and ?sq0.0 = "[]"
          and ?b1.0 = "[2,2,2,2,2,2,3,1,1,1,1,1,1,1]" and pos = 7
          and sq = "[8,9,10,11,12,13,0,1,2,3,4,5,7]"]
       a example_wrap k
  show ?thesis by simp
qed

section \<open>Turn transition\<close>

text \<open>
  C5.  In a successful move of player \<open>p\<close>, \<open>landedInStore\<close> holds exactly when the last
  position is \<open>p\<close>'s own store (6 for player 0, 13 for player 1), \<open>extraTurn\<close> equals
  \<open>landedInStore\<close>, and the current player becomes \<open>1 - p\<close> exactly when the move did not
  land in the store and the game did not end; otherwise it stays \<open>p\<close>.  From the default
  board, player 0 playing pit 2 ends in slot 6, earns an extra turn, stays to move, and slot 6
  holds 1.
\<close>

theorem turn_transition:
  "(applyMove e pitIndex = (Inr m, e') \<and> p = currentPlayer e
     \<longrightarrow> (p = 0 \<or> p = 1)
         \<and> isOwnStore (lastPosition m) p = Inr (landedInStore m)
         \<and> (landedInStore m \<longleftrightarrow> lastPosition m = (if p = 0 then 6 else 13))
         \<and> extraTurn m = landedInStore m
         \<and> (currentPlayer e' = 1 - p \<longleftrightarrow> \<not> landedInStore m \<and> \<not> gameOver e')
         \<and> (currentPlayer e' \<noteq> 1 - p \<longrightarrow> currentPlayer e' = p)
         \<and> ms_currentPlayer m = currentPlayer e'
         \<and> ms_gameOver m = gameOver e')
   \<and> applyMove (newEngine None None) 2 =
      (Inr \<lparr>ms_player = 0, ms_pitIndex = 2, stonesPicked = 4,
         sequence = [3, 4, 5, 6], lastPosition = 6, landedInStore = True,
         capture = None, sweep = None, extraTurn = True,
         ms_board = [4, 4, 0, 5, 5, 5, 1, 4, 4, 4, 4, 4, 4, 0],
         ms_currentPlayer = 0, ms_gameOver = False,
         ms_scores = \<lparr>human = 1, ai = 0\<rparr>\<rparr>,
       \<lparr>initialBoard = [4, 4, 4, 4, 4, 4, 0, 4, 4, 4, 4, 4, 4, 0],
        initialPlayer = Some 0,
        board = [4, 4, 0, 5, 5, 5, 1, 4, 4, 4, 4, 4, 4, 0], currentPlayer = 0,
        gameOver = False\<rparr>)"
proof (rule conjI[OF _ example_extra_turn], rule impI)
  assume h: "applyMove e pitIndex = (Inr m, e') \<and> p = currentPlayer e"
  then have am: "applyMove e pitIndex = (Inr m, e')" and p: "p = currentPlayer e" by simp_all
  from am have v: "isValidMove e pitIndex (currentPlayer e)" by (rule applyMove_Inr_valid)
  show "(p = 0 \<or> p = 1)
         \<and> isOwnStore (lastPosition m) p = Inr (landedInStore m)
         \<and> (landedInStore m \<longleftrightarrow> lastPosition m = (if p = 0 then 6 else 13))
         \<and> extraTurn m = landedInStore m
         \<and> (currentPlayer e' = 1 - p \<longleftrightarrow> \<not> landedInStore m \<and> \<not> gameOver e')
         \<and> (currentPlayer e' \<noteq> 1 - p \<longrightarrow> currentPlayer e' = p)
         \<and> ms_currentPlayer m = currentPlayer e'
         \<and> ms_gameOver m = gameOver e'"
  proof (rule applyMove_phases[OF v], goal_cases)
    case (1 b1 pos sq rg cap b2)
    from "1"(4) am have m: "lastPosition m = pos" "landedInStore m = (pos = rstore rg)"
      "extraTurn m = (pos = rstore rg)"
      "ms_currentPlayer m = (if pos \<noteq> rstore rg \<and> \<not> anySideEmpty b2
                                   then 1 - currentPlayer e else currentPlayer e)"
      "ms_gameOver m = anySideEmpty b2"
      and e': "currentPlayer e' = (if pos \<noteq> rstore rg \<and> \<not> anySideEmpty b2
                                   then 1 - currentPlayer e else currentPlayer e)"
       "gameOver e' = anySideEmpty b2"
      by auto
    from "1"(2) p have "(p = 0 \<and> rstore rg = 6) \<or> (p = 1 \<and> rstore rg = 13)"
      by (auto simp: PIT_RANGE_Some)
    with m e' p "1"(2) show ?case
      by (auto simp: isOwnStore_def)
  qed
qed

theorem turn_transition_witness:
  "applyMove \<lparr>initialBoard = [4, 4, 4, 4, 4, 4, 0, 4, 4, 4, 4, 4, 4, 0], initialPlayer = Some 0,
     board = [4, 4, 0, 5, 5, 5, 1, 4, 4, 4, 4, 4, 4, 0], currentPlayer = 0, gameOver = False\<rparr> 5 =
   (Inr \<lparr>ms_player = 0, ms_pitIndex = 5, stonesPicked = 5,
         sequence = [6, 7, 8, 9, 10], lastPosition = 10, landedInStore = False,
         capture = None, sweep = None, extraTurn = False,
         ms_board = [4, 4, 0, 5, 5, 0, 2, 5, 5, 5, 5, 4, 4, 0],
         ms_currentPlayer = 1, ms_gameOver = False,
         ms_scores = \<lparr>human = 2, ai = 0\<rparr>\<rparr>,
    \<lparr>initialBoard = [4, 4, 4, 4, 4, 4, 0, 4, 4, 4, 4, 4, 4, 0], initialPlayer = Some 0,
     board = [4, 4, 0, 5, 5, 0, 2, 5, 5, 5, 5, 4, 4, 0], currentPlayer = 1, gameOver = False\<rparr>)
   \<and> isOwnStore 10 0 = Inr False \<and> (10::int) \<noteq> (if (0::int) = 0 then 6 else 13)
   \<and> (1::int) = 1 - 0"
proof -
  let ?e = "\<lparr>initialBoard = [4, 4, 4, 4, 4, 4, 0, 4, 4, 4, 4, 4, 4, 0],
       initialPlayer = Some 0, board = [4, 4, 0, 5, 5, 5, 1, 4, 4, 4, 4, 4, 4, 0],
       currentPlayer = 0, gameOver = False\<rparr>"
  let ?m = "\<lparr>ms_player = 0, ms_pitIndex = 5, stonesPicked = 5,
         sequence = [6, 7, 8, 9, 10], lastPosition = 10, landedInStore = False,
         capture = None, sweep = None, extraTurn = False,
         ms_board = [4, 4, 0, 5, 5, 0, 2, 5, 5, 5, 5, 4, 4, 0],
         ms_currentPlayer = 1, ms_gameOver = False,
         ms_scores = \<lparr>human = 2, ai = 0\<rparr>\<rparr>"
  let ?e' = "\<lparr>initialBoard = [4, 4, 4, 4, 4, 4, 0, 4, 4, 4, 4, 4, 4, 0], initialPlayer = Some 0,
     board = [4, 4, 0, 5, 5, 0, 2, 5, 5, 5, 5, 4, 4, 0], currentPlayer = 1, gameOver = False\<rparr>"
  have a: "applyMove ?e 5 = (Inr ?m, ?e')" by (rule example_second_move)
  from turn_transition[where e = ?e and pitIndex = 5 and p = 0 and m = ?m and e' = ?e'] a
  show ?thesis by simp
qed

section \<open>Stone conservation\<close>

text \<open>
  C1.  On a board of 14 slots no \<^verbatim>\<open>applyMove\<close> call changes the sum of the slots, whether it
  captures, sweeps or raises; so after any sequence of successful moves the sum is that of
  the board the sequence started from, and 48 when it started from the default board.
\<close>

theorem stone_conservation:
  "(length (board e) = 14 \<and> playMoves e pits = Inr e'
      \<longrightarrow> sum_list (board e') = sum_list (board e) \<and> length (board e') = 14)
   \<and> (length (board e) = 14
      \<longrightarrow> sum_list (board (snd (applyMove e pitIndex))) = sum_list (board e))
   \<and> (playMoves (newEngine None player) pits = Inr e'' \<longrightarrow> sum_list (board e'') = 48)"
proof (intro conjI impI)
  assume h: "length (board e) = 14 \<and> playMoves e pits = Inr e'"
  with playMoves_sum[of e pits e']
  show "sum_list (board e') = sum_list (board e)" "length (board e') = 14" by simp_all
next
  assume "length (board e) = 14"
  from applyMove_sum[OF this] show "sum_list (board (snd (applyMove e pitIndex))) = sum_list (board e)"
    by simp
next
  assume h: "playMoves (newEngine None player) pits = Inr e''"
  have "length (board (newEngine None player)) = 14"
    by (simp add: newEngine_eq INITIAL_BOARD_def)
  from playMoves_sum[OF this h] show "sum_list (board e'') = 48"
    by (simp add: newEngine_eq INITIAL_BOARD_def)
qed

theorem stone_conservation_witness:
  "length (board (newEngine None None)) = 14
   \<and> playMoves (newEngine None None) [2, 5] =
       Inr \<lparr>initialBoard = [4, 4, 4, 4, 4, 4, 0, 4, 4, 4, 4, 4, 4, 0], initialPlayer = Some 0,
            board = [4, 4, 0, 5, 5, 0, 2, 5, 5, 5, 5, 4, 4, 0], currentPlayer = 1,
            gameOver = False\<rparr>
   \<and> sum_list [4, 4, 0, 5, 5, 0, 2, 5, 5, 5, 5, 4, 4, 0] = sum_list (board (newEngine None None))
   \<and> sum_list [4, 4, 0, 5, 5, 0, 2, 5, 5, 5, 5, 4, 4, 0] = (48::int)
   \<and> sum_list (board (snd (applyMove (newEngine None None) 2))) = 48"
  using stone_conservation[where e = "newEngine None None" and pits = "[2, 5]" and pitIndex = 2
        and player = None
        and e' = "\<lparr>initialBoard = [4, 4, 4, 4, 4, 4, 0, 4, 4, 4, 4, 4, 4, 0], initialPlayer = Some 0,
            board = [4, 4, 0, 5, 5, 0, 2, 5, 5, 5, 5, 4, 4, 0], currentPlayer = 1,
            gameOver = False\<rparr>"
        and e'' = "\<lparr>initialBoard = [4, 4, 4, 4, 4, 4, 0, 4, 4, 4, 4, 4, 4, 0], initialPlayer = Some 0,
            board = [4, 4, 0, 5, 5, 0, 2, 5, 5, 5, 5, 4, 4, 0], currentPlayer = 1,
            gameOver = False\<rparr>"]
        example_two_moves
  by (simp add: newEngine_eq INITIAL_BOARD_def)

section \<open>Capture\<close>

text \<open>
  C2.  In a successful move of player \<open>p\<close> on a well-formed state that does not end in
  \<open>p\<close>'s store, a capture is recorded exactly when the last position is one of \<open>p\<close>'s
  own pits, that pit holds 1 stone after the drop and the opposite pit \<open>12 - lastPosition\<close>
  holds more than 0.  The capture step then adds the opposite stones plus 1 to \<open>p\<close>'s store
  and empties both pits, leaving every other slot alone.  The pit holds one stone more than
  just before the last drop, so a last stone dropped into a pit that already held a stone
  never captures.
\<close>

theorem capture_rule:
  "wellFormed e \<and> applyMove e pitIndex = (Inr m, e') \<and> \<not> landedInStore m
     \<and> sowPhase e pitIndex = (b1, pos, sq) \<and> p = currentPlayer e
     \<and> st = (if p = 0 then 6 else 13)
   \<longrightarrow> lastPosition m = pos
      \<and> (capture m \<noteq> None \<longleftrightarrow>
            isOwnSide pos p = Inr True \<and> slot b1 pos = 1 \<and> slot b1 (12 - pos) > 0)
      \<and> slot b1 pos = slot (beforeLastDrop e pitIndex) pos + 1
      \<and> (slot (beforeLastDrop e pitIndex) pos \<ge> 1 \<longrightarrow> slot b1 pos \<ge> 2 \<and> capture m = None)
      \<and> (\<exists>b2. tryCapture b1 pos p = Inr (capture m, b2)
            \<and> board e' = (if anySideEmpty b2 then snd (collectRemainingStones b2) else b2)
            \<and> (capture m = None \<longrightarrow> b2 = b1)
            \<and> (\<forall>c. capture m = Some c \<longrightarrow>
                  c = \<lparr>cap_pit = pos, opposite = 12 - pos, store = st,
                        captured = slot b1 (12 - pos) + 1\<rparr>
                \<and> slot b2 st = slot b1 st + captured c
                \<and> slot b2 pos = 0 \<and> slot b2 (12 - pos) = 0
                \<and> (\<forall>i. 0 \<le> i \<and> i < 14 \<and> i \<noteq> st \<and> i \<noteq> pos \<and> i \<noteq> 12 - pos
                       \<longrightarrow> slot b2 i = slot b1 i)
                \<and> slot (board e') pos = 0 \<and> slot (board e') (12 - pos) = 0))"
proof (rule impI)
  assume h: "wellFormed e \<and> applyMove e pitIndex = (Inr m, e') \<and> \<not> landedInStore m
     \<and> sowPhase e pitIndex = (b1, pos, sq) \<and> p = currentPlayer e
     \<and> st = (if p = 0 then 6 else 13)"
  then have wf: "wellFormed e" and am: "applyMove e pitIndex = (Inr m, e')"
    and nl: "\<not> landedInStore m" and s: "sowPhase e pitIndex = (b1, pos, sq)"
    and p: "p = currentPlayer e" and st: "st = (if p = 0 then 6 else 13)" by simp_all
  from wf have len: "length (board e) = 14" and nn: "list_all (\<lambda>x. 0 \<le> x) (board e)"
    by (simp_all add: wellFormed_def)
  from am have v: "isValidMove e pitIndex (currentPlayer e)" by (rule applyMove_Inr_valid)
  from sowPhase_sum[OF len v s] sowPhase_nonneg[OF nn s]
  have b1: "length b1 = 14" "list_all (\<lambda>x. 0 \<le> x) b1" by simp_all
  note ld = last_drop[OF v len s]
  show "lastPosition m = pos
      \<and> (capture m \<noteq> None \<longleftrightarrow>
            isOwnSide pos p = Inr True \<and> slot b1 pos = 1 \<and> slot b1 (12 - pos) > 0)
      \<and> slot b1 pos = slot (beforeLastDrop e pitIndex) pos + 1
      \<and> (slot (beforeLastDrop e pitIndex) pos \<ge> 1 \<longrightarrow> slot b1 pos \<ge> 2 \<and> capture m = None)
      \<and> (\<exists>b2. tryCapture b1 pos p = Inr (capture m, b2)
            \<and> board e' = (if anySideEmpty b2 then snd (collectRemainingStones b2) else b2)
            \<and> (capture m = None \<longrightarrow> b2 = b1)
            \<and> (\<forall>c. capture m = Some c \<longrightarrow>
                  c = \<lparr>cap_pit = pos, opposite = 12 - pos, store = st,
                        captured = slot b1 (12 - pos) + 1\<rparr>
                \<and> slot b2 st = slot b1 st + captured c
                \<and> slot b2 pos = 0 \<and> slot b2 (12 - pos) = 0
                \<and> (\<forall>i. 0 \<le> i \<and> i < 14 \<and> i \<noteq> st \<and> i \<noteq> pos \<and> i \<noteq> 12 - pos
                       \<longrightarrow> slot b2 i = slot b1 i)
                \<and> slot (board e') pos = 0 \<and> slot (board e') (12 - pos) = 0))"
  proof (rule applyMove_phases[OF v], goal_cases)
    case (1 b1' pos' sq' rg cap b2)
    from "1"(1) s have eq1: "b1' = b1" "pos' = pos" by simp_all
    from "1"(4) am have m: "lastPosition m = pos" "landedInStore m = (pos = rstore rg)"
      "capture m = cap"
      and e': "board e' = (if anySideEmpty b2 then snd (collectRemainingStones b2) else b2)"
      unfolding eq1 by auto
    from "1"(3) m(2) nl have t: "tryCapture b1 pos p = Inr (cap, b2)"
      unfolding eq1 p by (simp add: captureStep_def)
    from "1"(2) p st have rg: "PIT_RANGE p = Some rg" "rstore rg = st"
      by (auto simp: PIT_RANGE_Some)
    note iff = tryCapture_iff[OF rg(1) t]
    have own: "isOwnSide pos p = Inr True \<longleftrightarrow> rstart rg \<le> pos \<and> pos \<le> rend rg"
      using rg(1) by (simp add: isOwnSide_def)
    have opp: "rstart rg \<le> pos \<and> pos \<le> rend rg \<Longrightarrow> 0 \<le> slot b1 (12 - pos)"
    proof -
      assume "rstart rg \<le> pos \<and> pos \<le> rend rg"
      with rg(1) b1(1) have "nat (12 - pos) < length b1" by (auto simp: PIT_RANGE_Some)
      from list_all_slot[OF b1(2) this] show ?thesis .
    qed
    have c1: "capture m \<noteq> None \<longleftrightarrow>
            isOwnSide pos p = Inr True \<and> slot b1 pos = 1 \<and> slot b1 (12 - pos) > 0"
      unfolding m(3) iff own using opp by auto
    have c2: "slot (beforeLastDrop e pitIndex) pos \<ge> 1 \<longrightarrow> slot b1 pos \<ge> 2 \<and> capture m = None"
      using ld c1 by auto
    from captureStep_wf[OF b1(2) b1(1), of pos p False cap b2] t
    have b2: "list_all (\<lambda>x. 0 \<le> x) b2" "length b2 = 14" by (simp_all add: captureStep_def)
    note sw = collect_swept[OF b2(2) b2(1)]
    have c3: "capture m = None \<longrightarrow> b2 = b1"
      using t tryCapture_None[of b1 pos p b2] m(3) by simp
    have c4: "\<forall>c. capture m = Some c \<longrightarrow>
                  c = \<lparr>cap_pit = pos, opposite = 12 - pos, store = st,
                        captured = slot b1 (12 - pos) + 1\<rparr>
                \<and> slot b2 st = slot b1 st + captured c
                \<and> slot b2 pos = 0 \<and> slot b2 (12 - pos) = 0
                \<and> (\<forall>i. 0 \<le> i \<and> i < 14 \<and> i \<noteq> st \<and> i \<noteq> pos \<and> i \<noteq> 12 - pos
                       \<longrightarrow> slot b2 i = slot b1 i)
                \<and> slot (board e') pos = 0 \<and> slot (board e') (12 - pos) = 0"
    proof (intro allI impI)
      fix c assume "capture m = Some c"
      with t m(3) have t': "tryCapture b1 pos p = Inr (Some c, b2)" by simp
      from tryCapture_Some[OF t'] rg obtain
        r: "rstart rg \<le> pos" "pos \<le> rend rg"
        and c: "c = \<lparr>cap_pit = pos, opposite = 12 - pos, store = st, captured = slot b1 (12 - pos) + 1\<rparr>"
        and b2e: "b2 = setSlot (setSlot (setSlot b1 st (slot b1 st + (slot b1 (12 - pos) + 1))) pos 0) (12 - pos) 0"
        by auto
      from r rg b1(1) have idx: "nat st < length b1" "nat pos < length b1" "nat (12 - pos) < length b1"
        "nat st \<noteq> nat pos" "nat st \<noteq> nat (12 - pos)" "nat pos \<noteq> nat (12 - pos)"
        "0 \<le> pos" "0 \<le> st" "pos \<le> 12"
        by (auto simp: PIT_RANGE_Some)
      have f1: "slot b2 st = slot b1 st + captured c" "slot b2 pos = 0" "slot b2 (12 - pos) = 0"
        using idx unfolding b2e c by (simp_all add: slot_def setSlot_def)
      have f2: "\<forall>i. 0 \<le> i \<and> i < 14 \<and> i \<noteq> st \<and> i \<noteq> pos \<and> i \<noteq> 12 - pos
                       \<longrightarrow> slot b2 i = slot b1 i"
      proof (intro allI impI)
        fix i :: int
        assume a: "0 \<le> i \<and> i < 14 \<and> i \<noteq> st \<and> i \<noteq> pos \<and> i \<noteq> 12 - pos"
        with idx have "nat st \<noteq> nat i" "nat pos \<noteq> nat i" "nat (12 - pos) \<noteq> nat i" by auto
        then show "slot b2 i = slot b1 i" unfolding b2e by (simp add: slot_def setSlot_def)
      qed
      from r rg have pits: "pos \<in> {0,1,2,3,4,5,7,8,9,10,11,12}"
        by (auto simp: PIT_RANGE_Some)
      have f3: "slot (board e') pos = 0 \<and> slot (board e') (12 - pos) = 0"
      proof (cases "anySideEmpty b2")
        case True
        with e' sw have be: "board e' = [0, 0, 0, 0, 0, 0, slot b2 6 + sumRange b2 0 5, 0, 0, 0, 0, 0, 0,
              slot b2 13 + sumRange b2 7 12]" by simp
        from pits show ?thesis
          unfolding be by (elim insertE emptyE) (simp_all add: slot_def)
      next
        case False
        with e' f1 show ?thesis by simp
      qed
      show "c = \<lparr>cap_pit = pos, opposite = 12 - pos, store = st,
                        captured = slot b1 (12 - pos) + 1\<rparr>
                \<and> slot b2 st = slot b1 st + captured c
                \<and> slot b2 pos = 0 \<and> slot b2 (12 - pos) = 0
                \<and> (\<forall>i. 0 \<le> i \<and> i < 14 \<and> i \<noteq> st \<and> i \<noteq> pos \<and> i \<noteq> 12 - pos
                       \<longrightarrow> slot b2 i = slot b1 i)
                \<and> slot (board e') pos = 0 \<and> slot (board e') (12 - pos) = 0"
        by (intro conjI c f1 f2 conjunct1[OF f3] conjunct2[OF f3])
    qed
    from t m(3) have t2: "tryCapture b1 pos p = Inr (capture m, b2)" by simp
    show ?case
      by (intro conjI exI[of _ b2] m(1) c1 conjunct2[OF ld] c2 t2 e' c3 c4)
  qed
qed

theorem capture_rule_witness:
  "wellFormed (newEngine (Some [0,0,1,0,2,0,0,4,3,4,4,4,4,0]) (Some 0))
   \<and> applyMove (newEngine (Some [0,0,1,0,2,0,0,4,3,4,4,4,4,0]) (Some 0)) 2 =
      (Inr \<lparr>ms_player = 0, ms_pitIndex = 2, stonesPicked = 1, sequence = [3],
         lastPosition = 3, landedInStore = False,
         capture = Some \<lparr>cap_pit = 3, opposite = 9, store = 6, captured = 5\<rparr>,
         sweep = None, extraTurn = False,
         ms_board = [0, 0, 0, 0, 2, 0, 5, 4, 3, 0, 4, 4, 4, 0],
         ms_currentPlayer = 1, ms_gameOver = False,
         ms_scores = \<lparr>human = 5, ai = 0\<rparr>\<rparr>,
       \<lparr>initialBoard = [0, 0, 1, 0, 2, 0, 0, 4, 3, 4, 4, 4, 4, 0],
        initialPlayer = Some 0,
        board = [0, 0, 0, 0, 2, 0, 5, 4, 3, 0, 4, 4, 4, 0], currentPlayer = 1,
        gameOver = False\<rparr>)
   \<and> sowPhase (newEngine (Some [0,0,1,0,2,0,0,4,3,4,4,4,4,0]) (Some 0)) 2
       = ([0,0,0,1,2,0,0,4,3,4,4,4,4,0], 3, [3])
   \<and> isOwnSide 3 0 = Inr True
   \<and> slot [0,0,0,1,2,0,0,4,3,4,4,4,4,0] 3 = 1
   \<and> slot [0,0,0,1,2,0,0,4,3,4,4,4,4,0] (12 - 3) > 0
   \<and> slot (beforeLastDrop (newEngine (Some [0,0,1,0,2,0,0,4,3,4,4,4,4,0]) (Some 0)) 2) 3 = 0"
proof -
  let ?e = "newEngine (Some [0,0,1,0,2,0,0,4,3,4,4,4,4,0]) (Some 0)"
  let ?m = "\<lparr>ms_player = 0, ms_pitIndex = 2, stonesPicked = 1, sequence = [3],
         lastPosition = 3, landedInStore = False,
         capture = Some \<lparr>cap_pit = 3, opposite = 9, store = 6, captured = 5\<rparr>,
         sweep = None, extraTurn = False,
         ms_board = [0, 0, 0, 0, 2, 0, 5, 4, 3, 0, 4, 4, 4, 0],
         ms_currentPlayer = 1, ms_gameOver = False,
         ms_scores = \<lparr>human = 5, ai = 0\<rparr>\<rparr>"
  let ?e' = "\<lparr>initialBoard = [0, 0, 1, 0, 2, 0, 0, 4, 3, 4, 4, 4, 4, 0],
        initialPlayer = Some 0,
        board = [0, 0, 0, 0, 2, 0, 5, 4, 3, 0, 4, 4, 4, 0], currentPlayer = 1,
        gameOver = False\<rparr>"
  have wf: "wellFormed ?e" by (simp add: newEngine_eq wellFormed_def)
  have cp: "currentPlayer ?e = 0" by (simp add: newEngine_eq)
  have a: "applyMove ?e 2 = (Inr ?m, ?e')" by (rule example_capture_only)
  from capture_rule[where e = ?e and pitIndex = 2 and m = ?m and e' = ?e'
         and ?b1.0 = "[0,0,0,1,2,0,0,4,3,4,4,4,4,0]" and pos = 3 and sq = "[3]"
         and p = 0 and st = 6]
       wf a example_capture_only_sow cp
  show ?thesis by simp
qed

section \<open>End of the game\<close>

text \<open>
  C3.  In a successful move on a well-formed state, let \<open>b2\<close> be the board after sowing and
  the capture step.  The game is over afterwards exactly when the pits 0-5 or the pits 7-12
  of \<open>b2\<close> sum to zero; then every pit is empty, each store has gained what was left in
  the pits of its own side, and \<open>gameOver\<close> is set, whether or not the move earned an
  extra turn or captured.  Otherwise the board stays \<open>b2\<close>.  From
  \<open>[0,0,0,0,0,1,20,0,0,0,0,0,5,15]\<close>, player 0 playing pit 5 ends the game with stores 21
  and 20 and all pits empty.
\<close>

theorem game_end_sweep:
  "(wellFormed e \<and> applyMove e pitIndex = (Inr m, e') \<and> sowPhase e pitIndex = (b1, pos, sq)
      \<and> captureStep b1 pos (currentPlayer e) (landedInStore m) = Inr (cap, b2)
     \<longrightarrow> cap = capture m
         \<and> (gameOver e' \<longleftrightarrow> sumRange b2 0 5 = 0 \<or> sumRange b2 7 12 = 0)
         \<and> ms_gameOver m = gameOver e'
         \<and> (gameOver e' \<longrightarrow>
               slot (board e') 6 = slot b2 6 + sumRange b2 0 5
             \<and> slot (board e') 13 = slot b2 13 + sumRange b2 7 12
             \<and> (\<forall>i \<in> set [0..5] \<union> set [7..12]. slot (board e') i = 0)
             \<and> length (board e') = 14
             \<and> sweep m = Some (fst (collectRemainingStones b2)))
         \<and> (\<not> gameOver e' \<longrightarrow> board e' = b2 \<and> sweep m = None))
   \<and> applyMove (newEngine (Some [0,0,0,0,0,1,20,0,0,0,0,0,5,15]) (Some 0)) 5 = 
       (Inr \<lparr>ms_player = 0, ms_pitIndex = 5, stonesPicked = 1, sequence = [6],
         lastPosition = 6, landedInStore = True, capture = None,
         sweep =
           Some
            \<lparr>humanRemaining = 0, aiRemaining = 5,
               sw_board = [0, 0, 0, 0, 0, 0, 21, 0, 0, 0, 0, 0, 0, 20],
               sw_scores = \<lparr>human = 21, ai = 20\<rparr>\<rparr>,
         extraTurn = True,
         ms_board = [0, 0, 0, 0, 0, 0, 21, 0, 0, 0, 0, 0, 0, 20],
         ms_currentPlayer = 0, ms_gameOver = True,
         ms_scores = \<lparr>human = 21, ai = 20\<rparr>\<rparr>,
        \<lparr>initialBoard = [0, 0, 0, 0, 0, 1, 20, 0, 0, 0, 0, 0, 5, 15],
         initialPlayer = Some 0,
         board = [0, 0, 0, 0, 0, 0, 21, 0, 0, 0, 0, 0, 0, 20],
         currentPlayer = 0, gameOver = True\<rparr>)"
proof (rule conjI[OF _ example_sweep], rule impI)
  assume h: "wellFormed e \<and> applyMove e pitIndex = (Inr m, e') \<and> sowPhase e pitIndex = (b1, pos, sq)
      \<and> captureStep b1 pos (currentPlayer e) (landedInStore m) = Inr (cap, b2)"
  then have wf: "wellFormed e" and am: "applyMove e pitIndex = (Inr m, e')"
    and s: "sowPhase e pitIndex = (b1, pos, sq)"
    and c: "captureStep b1 pos (currentPlayer e) (landedInStore m) = Inr (cap, b2)" by simp_all
  from wf have len: "length (board e) = 14" and nn: "list_all (\<lambda>x. 0 \<le> x) (board e)"
    by (simp_all add: wellFormed_def)
  from am have v: "isValidMove e pitIndex (currentPlayer e)" by (rule applyMove_Inr_valid)
  from sowPhase_sum[OF len v s] sowPhase_nonneg[OF nn s]
  have b1: "length b1 = 14" "list_all (\<lambda>x. 0 \<le> x) b1" by simp_all
  from captureStep_wf[OF b1(2) b1(1) c] have b2: "list_all (\<lambda>x. 0 \<le> x) b2" "length b2 = 14"
    by simp_all
  from sumRange_zero_iff[OF b2(2) b2(1)]
  have ae: "anySideEmpty b2 \<longleftrightarrow> sumRange b2 0 5 = 0 \<or> sumRange b2 7 12 = 0"
    by (simp add: anySideEmpty_def)
  note sw = collect_swept[OF b2(2) b2(1)]
  show "cap = capture m
         \<and> (gameOver e' \<longleftrightarrow> sumRange b2 0 5 = 0 \<or> sumRange b2 7 12 = 0)
         \<and> ms_gameOver m = gameOver e'
         \<and> (gameOver e' \<longrightarrow>
               slot (board e') 6 = slot b2 6 + sumRange b2 0 5
             \<and> slot (board e') 13 = slot b2 13 + sumRange b2 7 12
             \<and> (\<forall>i \<in> set [0..5] \<union> set [7..12]. slot (board e') i = 0)
             \<and> length (board e') = 14
             \<and> sweep m = Some (fst (collectRemainingStones b2)))
         \<and> (\<not> gameOver e' \<longrightarrow> board e' = b2 \<and> sweep m = None)"
  proof (rule applyMove_phases[OF v], goal_cases)
    case (1 b1' pos' sq' rg cap' b2')
    from "1"(1) s have eq1: "b1' = b1" "pos' = pos" by simp_all
    from "1"(4) am have li: "landedInStore m = (pos' = rstore rg)" by auto
    from "1"(3) c eq1 li have eq2: "cap' = cap" "b2' = b2" by simp_all
    from "1"(4) am eq2 have
      r: "capture m = cap" "ms_gameOver m = anySideEmpty b2" "gameOver e' = anySideEmpty b2"
         "board e' = (if anySideEmpty b2 then snd (collectRemainingStones b2) else b2)"
         "sweep m = (if anySideEmpty b2 then Some (fst (collectRemainingStones b2)) else None)"
      by auto
    show ?case
      unfolding r ae[symmetric]
      by (simp add: sw upto_0_5 upto_7_12 slot_def)
  qed
qed

theorem game_end_sweep_witness:
  "wellFormed (newEngine (Some [0,0,0,1,0,0,0,4,3,4,4,4,4,0]) (Some 0))
   \<and> applyMove (newEngine (Some [0,0,0,1,0,0,0,4,3,4,4,4,4,0]) (Some 0)) 3 =
       (Inr \<lparr>ms_player = 0, ms_pitIndex = 3, stonesPicked = 1, sequence = [4],
         lastPosition = 4, landedInStore = False,
         capture = Some \<lparr>cap_pit = 4, opposite = 8, store = 6, captured = 4\<rparr>,
         sweep =
           Some
            \<lparr>humanRemaining = 0, aiRemaining = 20,
               sw_board = [0, 0, 0, 0, 0, 0, 4, 0, 0, 0, 0, 0, 0, 20],
               sw_scores = \<lparr>human = 4, ai = 20\<rparr>\<rparr>,
         extraTurn = False,
         ms_board = [0, 0, 0, 0, 0, 0, 4, 0, 0, 0, 0, 0, 0, 20],
         ms_currentPlayer = 0, ms_gameOver = True,
         ms_scores = \<lparr>human = 4, ai = 20\<rparr>\<rparr>,
        \<lparr>initialBoard = [0, 0, 0, 1, 0, 0, 0, 4, 3, 4, 4, 4, 4, 0],
         initialPlayer = Some 0,
         board = [0, 0, 0, 0, 0, 0, 4, 0, 0, 0, 0, 0, 0, 20], currentPlayer = 0,
         gameOver = True\<rparr>)
   \<and> sowPhase (newEngine (Some [0,0,0,1,0,0,0,4,3,4,4,4,4,0]) (Some 0)) 3
       = ([0,0,0,0,1,0,0,4,3,4,4,4,4,0], 4, [4])
   \<and> captureStep [0,0,0,0,1,0,0,4,3,4,4,4,4,0] 4 0 False
       = Inr (Some \<lparr>cap_pit = 4, opposite = 8, store = 6, captured = 4\<rparr>,
              [0,0,0,0,0,0,4,4,0,4,4,4,4,0])
   \<and> sumRange [0,0,0,0,0,0,4,4,0,4,4,4,4,0] 0 5 = 0
   \<and> slot [0, 0, 0, 0, 0, 0, 4, 0, 0, 0, 0, 0, 0, 20] 13
        = slot [0,0,0,0,0,0,4,4,0,4,4,4,4,0] 13 + sumRange [0,0,0,0,0,0,4,4,0,4,4,4,4,0] 7 12"
proof -
  let ?e = "newEngine (Some [0,0,0,1,0,0,0,4,3,4,4,4,4,0]) (Some 0)"
  let ?m = "\<lparr>ms_player = 0, ms_pitIndex = 3, stonesPicked = 1, sequence = [4],
         lastPosition = 4, landedInStore = False,
         capture = Some \<lparr>cap_pit = 4, opposite = 8, store = 6, captured = 4\<rparr>,
         sweep =
           Some
            \<lparr>humanRemaining = 0, aiRemaining = 20,
               sw_board = [0, 0, 0, 0, 0, 0, 4, 0, 0, 0, 0, 0, 0, 20],
               sw_scores = \<lparr>human = 4, ai = 20\<rparr>\<rparr>,
         extraTurn = False,
         ms_board = [0, 0, 0, 0, 0, 0, 4, 0, 0, 0, 0, 0, 0, 20],
         ms_currentPlayer = 0, ms_gameOver = True,
         ms_scores = \<lparr>human = 4, ai = 20\<rparr>\<rparr>"
  let ?e' = "\<lparr>initialBoard = [0, 0, 0, 1, 0, 0, 0, 4, 3, 4, 4, 4, 4, 0],
         initialPlayer = Some 0,
         board = [0, 0, 0, 0, 0, 0, 4, 0, 0, 0, 0, 0, 0, 20], currentPlayer = 0,
         gameOver = True\<rparr>"
  have wf: "wellFormed ?e" by (simp add: newEngine_eq wellFormed_def)
  have cp: "currentPlayer ?e = 0" by (simp add: newEngine_eq)
  have a: "applyMove ?e 3 = (Inr ?m, ?e')" by (rule example_capture)
  from game_end_sweep[where e = ?e and pitIndex = 3 and m = ?m and e' = ?e'
         and ?b1.0 = "[0,0,0,0,1,0,0,4,3,4,4,4,4,0]" and pos = 4 and sq = "[4]"
         and cap = "Some \<lparr>cap_pit = 4, opposite = 8, store = 6, captured = 4\<rparr>"
         and ?b2.0 = "[0,0,0,0,0,0,4,4,0,4,4,4,4,0]"]
       wf a example_capture_sow example_capture_step cp
  show ?thesis by (simp add: sumRange_def upto_0_5 upto_7_12 slot_def)
qed

section \<open>Reset\<close>

lemma applyMove_keeps_initial:
  "initialBoard (snd (applyMove e pitIndex)) = initialBoard e
   \<and> initialPlayer (snd (applyMove e pitIndex)) = initialPlayer e"
proof (cases "gameOver e \<or> \<not> isValidMove e pitIndex (currentPlayer e)")
  case True
  from applyMove_invalid[OF this] show ?thesis by simp
next
  case False
  then have v: "isValidMove e pitIndex (currentPlayer e)" by simp
  show ?thesis
  proof (rule applyMove_phases[OF v], goal_cases)
    case (1 b1 pos sq rg cap b2)
    from "1"(4) show ?case by simp
  qed
qed

lemma reset_initialBoard:
  "initialBoard (reset e boardArg playerArg) = (case boardArg of Some b \<Rightarrow> b | None \<Rightarrow> initialBoard e)"
  by (simp add: reset_def Let_def split: option.splits)

lemma run_initialBoard: "initialBoard (run e cs) = lastSupplied (initialBoard e) cs"
proof (induction cs arbitrary: e)
  case Nil
  then show ?case by simp
next
  case (Cons c cs)
  show ?case
  proof (cases c)
    case (Reset b p)
    with Cons.IH[of "reset e b p"] show ?thesis
      by (cases b) (simp_all add: reset_initialBoard)
  next
    case (Move pit)
    with Cons.IH[of "snd (applyMove e pit)"] show ?thesis
      by (simp add: applyMove_keeps_initial)
  qed
qed

lemma run_initialPlayer:
  "initialPlayer e \<noteq> None \<Longrightarrow> initialPlayer (run e cs) \<noteq> None"
proof (induction cs arbitrary: e)
  case Nil
  then show ?case by simp
next
  case (Cons c cs)
  show ?case
  proof (cases c)
    case (Reset b p)
    have "initialPlayer (reset e b p) \<noteq> None" by (simp add: reset_def Let_def split: option.splits)
    from Cons.IH[OF this] Reset show ?thesis by simp
  next
    case (Move pit)
    from Cons.prems have "initialPlayer (snd (applyMove e pit)) \<noteq> None"
      by (simp add: applyMove_keeps_initial)
    from Cons.IH[OF this] Move show ?thesis by simp
  qed
qed

text \<open>
  C8.  \<^verbatim>\<open>reset\<close> cannot raise (it is a total function) and always clears \<open>gameOver\<close>.
  Without a board it reinstates the board last supplied to the engine, whether to the
  constructor or to an earlier \<^verbatim>\<open>reset\<close> (the default layout when none was ever supplied);
  a supplied board becomes that remembered board.  Without a player it takes the recorded
  starting player, or 0 when a board is supplied in the same call; the player chosen is
  recorded as the new starting player.  Moves change neither record.
\<close>

theorem reset_semantics:
  "gameOver (reset e boardArg playerArg) = False
   \<and> board (reset e None playerArg) = initialBoard e
   \<and> initialBoard (reset e None playerArg) = initialBoard e
   \<and> board (reset e (Some b) playerArg) = b
   \<and> initialBoard (reset e (Some b) playerArg) = b
   \<and> currentPlayer (reset e boardArg (Some q)) = q
   \<and> currentPlayer (reset e None None) = (case initialPlayer e of Some q' \<Rightarrow> q' | None \<Rightarrow> 0)
   \<and> currentPlayer (reset e (Some b) None) = 0
   \<and> initialPlayer (reset e boardArg playerArg) = Some (currentPlayer (reset e boardArg playerArg))
   \<and> initialBoard (newEngine ba pa) = (case ba of Some b' \<Rightarrow> b' | None \<Rightarrow> INITIAL_BOARD)
   \<and> initialPlayer (newEngine ba pa) = Some (case pa of Some q' \<Rightarrow> q' | None \<Rightarrow> 0)
   \<and> initialBoard (snd (applyMove e pitIndex)) = initialBoard e
   \<and> initialPlayer (snd (applyMove e pitIndex)) = initialPlayer e
   \<and> board (reset (run (newEngine ba pa) cs) None playerArg)
        = lastSupplied (case ba of Some b' \<Rightarrow> b' | None \<Rightarrow> INITIAL_BOARD) cs
   \<and> initialPlayer (run (newEngine ba pa) cs) \<noteq> None"
proof -
  have a: "board (reset (run (newEngine ba pa) cs) None playerArg)
        = lastSupplied (case ba of Some b' \<Rightarrow> b' | None \<Rightarrow> INITIAL_BOARD) cs"
    using run_initialBoard[of "newEngine ba pa" cs]
    by (simp add: reset_def Let_def newEngine_eq)
  have b: "initialPlayer (run (newEngine ba pa) cs) \<noteq> None"
    by (rule run_initialPlayer) (simp add: newEngine_eq)
  show ?thesis
    using a b applyMove_keeps_initial[of e pitIndex]
    by (simp add: reset_def Let_def newEngine_eq split: option.splits)
qed

text \<open>
  The board reinstated is not always the one supplied at construction: after a
  \<^verbatim>\<open>reset\<close> with a board, a later \<^verbatim>\<open>reset()\<close> restores that board.
\<close>

theorem reset_board_counterexample:
  "board (reset (run (newEngine None None) [Reset (Some [1,1,1,1,1,1,0,1,1,1,1,1,1,0]) None]) None None)
     = [1,1,1,1,1,1,0,1,1,1,1,1,1,0]
   \<and> board (reset (run (newEngine None None) [Reset (Some [1,1,1,1,1,1,0,1,1,1,1,1,1,0]) None]) None None)
     \<noteq> INITIAL_BOARD"
  by (simp add: reset_def Let_def newEngine_eq INITIAL_BOARD_def)

section \<open>The evaluator\<close>

lemma clone_eq:
  "clone e = \<lparr>initialBoard = board e, initialPlayer = Some (currentPlayer e), board = board e,
              currentPlayer = currentPlayer e, gameOver = gameOver e\<rparr>"
  by (simp add: clone_def newEngine_eq)
















subsection \<open>Rounding\<close>

lemma bitLength_nonpos: "a \<le> 0 \<Longrightarrow> bitLength a = 0"
  by (subst bitLength.simps) simp

lemma bitLength_pos: "0 < a \<Longrightarrow> bitLength a = 1 + bitLength (a div 2)"
  by (subst bitLength.simps) simp

lemma bitLength_nonneg: "0 \<le> bitLength a"
proof (induction a rule: bitLength.induct)
  case (1 a)
  then show ?case by (cases "a \<le> 0") (simp_all add: bitLength_nonpos bitLength_pos)
qed

lemma bitLength_bounds:
  "0 < a \<Longrightarrow> 1 \<le> bitLength a \<and> 2 ^ nat (bitLength a - 1) \<le> a \<and> a < 2 ^ nat (bitLength a)"
proof (induction a rule: bitLength.induct)
  case (1 a)
  show ?case
  proof (cases "a div 2 \<le> 0")
    case True
    with "1.prems" have "a = 1" by presburger
    then show ?thesis by (simp add: bitLength_pos bitLength_nonpos)
  next
    case False
    then have h: "0 < a div 2" by simp
    with "1.IH" "1.prems" have ih: "1 \<le> bitLength (a div 2)"
      "2 ^ nat (bitLength (a div 2) - 1) \<le> a div 2" "a div 2 < 2 ^ nat (bitLength (a div 2))"
      by simp_all
    have bl: "bitLength a = 1 + bitLength (a div 2)" using "1.prems" by (rule bitLength_pos)
    have n1: "nat (bitLength a - 1) = Suc (nat (bitLength (a div 2) - 1))"
      using ih(1) bl by simp
    have n2: "nat (bitLength a) = Suc (nat (bitLength (a div 2)))"
      using ih(1) bl by simp
    from ih(2) have "2 * 2 ^ nat (bitLength (a div 2) - 1) \<le> a" by presburger
    moreover from ih(3) have "a < 2 * 2 ^ nat (bitLength (a div 2))" by presburger
    ultimately show ?thesis using bl ih(1) n1 n2 by simp
  qed
qed

text \<open>
  \<open>roundDouble\<close> keeps a number of at most 53 bits as it is, and otherwise returns a
  53-bit significand (or 2^53, after a carry) at most half a unit in the last place away
  from the argument, the even one when the argument lies half-way.
\<close>

lemma roundDouble_exact: "\<bar>m\<bar> < 2 ^ 53 \<Longrightarrow> roundDouble (m, e) = (m, e)"
proof (cases "m = 0")
  case True
  then show ?thesis by (simp add: roundDouble_def bitLength_nonpos Let_def)
next
  case False
  assume a: "\<bar>m\<bar> < 2 ^ 53"
  from False have p: "0 < \<bar>m\<bar>" by simp
  from bitLength_bounds[OF p] a have "(2::int) ^ nat (bitLength \<bar>m\<bar> - 1) < 2 ^ 53" by simp
  then have "nat (bitLength \<bar>m\<bar> - 1) < 53"
    using power_less_imp_less_exp[of "2::int" "nat (bitLength \<bar>m\<bar> - 1)" 53] by simp
  then have "bitLength \<bar>m\<bar> \<le> 53" by simp
  then show ?thesis by (simp add: roundDouble_def Let_def)
qed

lemma roundDouble_nearest:
  assumes r: "roundDouble (m, e) = (m', e')" and big: "2 ^ 53 \<le> \<bar>m\<bar>"
  shows "e < e' \<and> 2 ^ 52 \<le> \<bar>m'\<bar> \<and> \<bar>m'\<bar> \<le> 2 ^ 53
       \<and> 2 * \<bar>m - m' * 2 ^ nat (e' - e)\<bar> \<le> 2 ^ nat (e' - e)
       \<and> (2 * \<bar>m - m' * 2 ^ nat (e' - e)\<bar> = 2 ^ nat (e' - e) \<longrightarrow> even m')"
proof -
  define a where "a = \<bar>m\<bar>"
  define n where "n = bitLength a"
  define sh where "sh = nat (n - 53)"
  define q where "q = a div 2 ^ sh"
  define rr where "rr = a mod 2 ^ sh"
  define half :: int where "half = 2 ^ (sh - 1)"
  define q' where "q' = (if rr > half \<or> (rr = half \<and> odd q) then q + 1 else q)"
  from big have ap: "0 < a" by (simp add: a_def)
  from bitLength_bounds[OF ap] have bl: "1 \<le> n" "2 ^ nat (n - 1) \<le> a" "a < 2 ^ nat n"
    by (simp_all add: n_def)
  from big bl(3) have "(2::int) ^ 53 < 2 ^ nat n" by (simp add: a_def)
  then have "53 < nat n"
    using power_less_imp_less_exp[of "2::int" 53 "nat n"] by simp
  then have n54: "54 \<le> n" by simp
  then have sh1: "1 \<le> sh" "int sh = n - 53" by (simp_all add: sh_def)
  have nn: "nat n = 53 + sh" "nat (n - 1) = 52 + sh" using n54 by (simp_all add: sh_def)
  have res: "m' = sgn m * q'" "e' = e + int sh"
    using r n54 unfolding roundDouble_def a_def n_def sh_def q_def rr_def half_def q'_def
    by (auto simp: Let_def)
  have decomp: "a = q * 2 ^ sh + rr" "0 \<le> rr" "rr < 2 ^ sh"
    unfolding q_def rr_def by (simp_all add: div_mult_mod_eq)
  from sh1 obtain k where k: "sh = Suc k" by (cases sh) auto
  have twohalf: "2 * half = 2 ^ sh" by (simp add: half_def k)
  have p2: "(0::int) < 2 ^ sh" by simp
  from bl(3) nn have "a < 2 ^ 53 * 2 ^ sh" by (simp add: power_add)
  with decomp(1,2) have "q * 2 ^ sh < 2 ^ 53 * 2 ^ sh" by linarith
  then have qhi: "q < 2 ^ 53" using p2 by (simp only: mult_less_cancel_right_pos)
  from bl(2) nn have "2 ^ 52 * 2 ^ sh \<le> a" by (simp add: power_add)
  moreover have "(q + 1) * 2 ^ sh = q * 2 ^ sh + 2 ^ sh" by (simp add: algebra_simps)
  ultimately have "2 ^ 52 * 2 ^ sh < (q + 1) * 2 ^ sh" using decomp(1,3) by linarith
  then have "2 ^ 52 < q + 1" using p2 by (simp only: mult_less_cancel_right_pos)
  then have qlo: "2 ^ 52 \<le> q" by simp
  have q'b: "2 ^ 52 \<le> q'" "q' \<le> 2 ^ 53" using qlo qhi by (auto simp: q'_def)
  have sg: "\<bar>sgn m\<bar> = 1" using big by (auto simp: sgn_if)
  have m: "m = sgn m * a" by (simp add: a_def mult_sgn_abs)
  have abs1: "\<bar>m'\<bar> = q'" using res(1) sg q'b by (simp add: abs_mult)
  have diff: "\<bar>m - m' * 2 ^ sh\<bar> = \<bar>a - q' * 2 ^ sh\<bar>"
  proof -
    have "m - m' * 2 ^ sh = sgn m * (a - q' * 2 ^ sh)"
      using m res(1) by (simp add: algebra_simps)
    then show ?thesis using sg by (simp add: abs_mult)
  qed
  have sh_eq: "nat (e' - e) = sh" using res(2) by simp
  have err: "2 * \<bar>a - q' * 2 ^ sh\<bar> \<le> 2 ^ sh
             \<and> (2 * \<bar>a - q' * 2 ^ sh\<bar> = 2 ^ sh \<longrightarrow> even q')"
  proof (cases "rr > half \<or> (rr = half \<and> odd q)")
    case True
    then have q': "q' = q + 1" by (simp add: q'_def)
    have "a - q' * 2 ^ sh = rr - 2 ^ sh" using decomp(1) q' by (simp add: algebra_simps)
    with True decomp twohalf q' show ?thesis by auto
  next
    case False
    then have q': "q' = q" by (simp add: q'_def)
    have "a - q' * 2 ^ sh = rr" using decomp(1) q' by simp
    with False decomp twohalf q' show ?thesis by auto
  qed
  have "sgn m = 1 \<or> sgn m = - 1" using big by (auto simp: sgn_if)
  then have ev: "even m' \<longleftrightarrow> even q'" using res(1) by auto
  from res sh1 abs1 q'b diff err ev show ?thesis unfolding sh_eq by simp
qed

text \<open>The arguments handed to \<open>roundDouble\<close> are the exact product and the exact difference.\<close>

lemma timesDouble_argument:
  "doubleValue (w * m, e) = real_of_int w * doubleValue (m, e)"
  by (simp add: doubleValue_def)

lemma minusDouble_argument:
  "doubleValue (if e \<le> 0 then (s * 2 ^ nat (- e) - m, e) else (s - m * 2 ^ nat e, 0))
     = real_of_int s - doubleValue (m, e)"
  by (simp add: doubleValue_def field_simps)

lemmas double_eval = minusScaled_def minusDouble_def timesDouble_def roundDouble_def
  doubleValue_def POINT_SIX_def bitLength_pos bitLength_nonpos Let_def

text \<open>The constant is the 53-bit number nearest to 6/10.\<close>

lemma POINT_SIX_nearest:
  "2 ^ 52 \<le> fst POINT_SIX \<and> fst POINT_SIX < 2 ^ 53
   \<and> \<bar>doubleValue POINT_SIX - 6 / 10\<bar> < 1 / 2 ^ 54"
  by (simp add: POINT_SIX_def doubleValue_def)

text \<open>
  Two scores that are equal over the reals and differ as doubles:
  \<^verbatim>\<open>27 - 18 * 0.6\<close> is \<^verbatim>\<open>16.200000000000003\<close> and \<^verbatim>\<open>21 - 8 * 0.6\<close> is \<^verbatim>\<open>16.2\<close>.
\<close>

lemma example_rounding:
  "minusScaled 27 (Fin 18) = Fin (1139973655678157 / 70368744177664)
   \<and> minusScaled 21 (Fin 8) = Fin (4559894622712627 / 281474976710656)
   \<and> (1139973655678157 / 70368744177664 :: real) > 4559894622712627 / 281474976710656"
  by (simp add: double_eval)


lemma example_rounding_tie:
  "minusScaled (- 12) (Fin 12) = Fin (- (5404319552844595 / 281474976710656))
   \<and> minusScaled 30 (Fin 82) = Fin (- (2702159776422297 / 140737488355328))"
  by (simp add: double_eval)

subsection \<open>Worked evaluations\<close>

text \<open>
  The board \<open>[0,0,0,0,1,1,0,0,0,0,0,0,1,0]\<close> with player 0 to move: pit 5 reaches the
  store (score 46), pit 4 lets the opponent finish the game with pit 12
  (score \<^verbatim>\<open>0 - 14 * 0.6\<close>, the double \<^verbatim>\<open>-8.4\<close>).
\<close>

lemmas evaluator_eval = evaluateMove_def evaluateMoveDirect_def simulateMove_def clone_eq newEngine_eq
  sowPhase_def baseScore_def finalMargin_def playerScore_def opponentScore_def
  HUMAN_PLAYER_def AI_PLAYER_def opponentOf_def getValidMoves_def replyScore_def
  chooseBest_def chooseBestAIMove_def

lemma example_eval_store:
  "evaluateMove (newEngine (Some [0,0,0,0,1,1,0,0,0,0,0,0,1,0]) (Some 0)) 0 5 = Inr (Fin 46)"
  by (simp add: evaluator_eval engine_eval sow_eval)




text \<open>
  The board \<open>[2,0,0,2,1,0,2,1,1,0,0,0,0,0]\<close> with player 1 to move.  Pit 7 scores
  \<^verbatim>\<open>-12 - 12 * 0.6\<close> and pit 8 scores \<^verbatim>\<open>30 - 82 * 0.6\<close>: both are -19.2 over the reals,
  but the doubles are \<^verbatim>\<open>-19.2\<close> and \<^verbatim>\<open>-19.199999999999996\<close>, so pit 8 is strictly
  better and is chosen.
\<close>

lemma example_tie_moves:
  "getValidMoves (newEngine (Some [2,0,0,2,1,0,2,1,1,0,0,0,0,0]) (Some 1)) 1 = Inr [7, 8]"
  by (simp add: getValidMoves_def newEngine_eq PIT_RANGE_def upto_7_12 slot_def)

lemma example_tie_first:
  "evaluateMove (newEngine (Some [2,0,0,2,1,0,2,1,1,0,0,0,0,0]) (Some 1)) 1 7
     = Inr (Fin (- (5404319552844595 / 281474976710656)))"
  by (simp add: evaluator_eval engine_eval sow_eval example_rounding_tie)

lemma example_tie_second:
  "evaluateMove (newEngine (Some [2,0,0,2,1,0,2,1,1,0,0,0,0,0]) (Some 1)) 1 8
     = Inr (Fin (- (2702159776422297 / 140737488355328)))"
  by (simp add: evaluator_eval engine_eval sow_eval example_rounding_tie)

lemma example_tie_choose:
  "chooseBestAIMove (newEngine (Some [2,0,0,2,1,0,2,1,1,0,0,0,0,0]) (Some 1)) = Inr (Some 8)"
  by (simp add: chooseBestAIMove_def chooseBest_def AI_PLAYER_def example_tie_moves
        example_tie_first example_tie_second)





text \<open>
  The copy of the script that simulates the replies directly on the simulated engine
  raises where the other copy returns: from the default board with player 1 to move, pit 9
  ends in the store, the simulated engine still has player 1 to move, and the first reply
  simulated is pit 0 of player 0.
\<close>

lemma example_eval_direct:
  "evaluateMoveDirect (newEngine None (Some 1)) 1 9 = Inl (InvalidMove 0)
   \<and> evaluateMove (newEngine None (Some 1)) 1 9 = Inr (Fin 46)"
  by (simp add: evaluator_eval engine_eval sow_eval INITIAL_BOARD_def)

subsection \<open>Totality\<close>




subsection \<open>Choosing the best move\<close>




end
